theory Spec2Isabelle
  imports Main "HOL-Library.List_Lexorder" "HOL-Library.Char_ord" "HOL-Library.Multiset" "HOL-Library.AList"
begin

section \<open>Shared JavaScript helpers\<close>

text \<open>
  \<open>OneOrMore<T>\<close> of \<open>vutils/type.ts\<close> is \<open>T | T[]\<close>; lodash's \<open>castArray\<close> wraps a single
  value into a one-element array and returns an array as it is.
\<close>

datatype 'a OneOrMore = One 'a | More "'a list"

fun castArray :: "'a OneOrMore \<Rightarrow> 'a list" where
  "castArray (One x) = [x]"
| "castArray (More xs) = xs"

text \<open>
  lodash's \<open>uniq\<close> keeps the first occurrence of every value, in order.
\<close>

fun uniq :: "'a list \<Rightarrow> 'a list" where
  "uniq [] = []"
| "uniq (x # xs) = x # uniq (filter (\<lambda>y. y \<noteq> x) xs)"

text \<open>
  \<open>Number.prototype.toString\<close> on an integer: its decimal digits, with a leading minus
  sign for a negative number (the notation JavaScript uses below \<open>10^21\<close>).
\<close>

definition digitChar :: "nat \<Rightarrow> char" where
  "digitChar d = char_of (48 + d)"

fun natToString :: "nat \<Rightarrow> string" where
  "natToString n = (if n < 10 then [digitChar n] else natToString (n div 10) @ [digitChar (n mod 10)])"

declare natToString.simps [simp del]

definition numberToString :: "int \<Rightarrow> string" where
  "numberToString i = (if i < 0 then CHR ''-'' # natToString (nat (- i)) else natToString (nat i))"

text \<open>
  \<open>Array.prototype.sort()\<close> called without a comparison function orders the elements by
  their string conversions, compared code unit by code unit, and is stable. The strings
  are compared with the lexicographic order on \<open>char list\<close>.
\<close>

definition defaultSort :: "int list \<Rightarrow> int list" where
  "defaultSort xs = sort_key numberToString xs"

section \<open>Strings, objects and errors of the JavaScript code\<close>

text \<open>
  Strings are lists of characters; the case and whitespace functions are modelled on
  the ASCII range, where \<open>toLowerCase\<close> maps \<open>A\<close>..\<open>Z\<close> to \<open>a\<close>..\<open>z\<close> and \<open>trim\<close> removes
  tab, line feed, vertical tab, form feed, carriage return and space from both ends.
\<close>

definition lowerChar :: "char \<Rightarrow> char" where
  "lowerChar c = (if CHR ''A'' \<le> c \<and> c \<le> CHR ''Z'' then char_of (of_char c + (32::nat)) else c)"

definition toLowerCase :: "string \<Rightarrow> string" where
  "toLowerCase s = map lowerChar s"

definition isWhitespace :: "char \<Rightarrow> bool" where
  "isWhitespace c = (c \<in> set [char_of (9::nat), char_of (10::nat), char_of (11::nat),
                             char_of (12::nat), char_of (13::nat), CHR '' ''])"

definition trim :: "string \<Rightarrow> string" where
  "trim s = rev (dropWhile isWhitespace (rev (dropWhile isWhitespace s)))"

text \<open>
  A thrown exception is the left summand of the result. \<open>TypeError\<close> is what the engine
  throws when a method is called on a value that does not have it, \<open>RangeError\<close> what it
  throws when calls nest deeper than its stack allows; \<open>ExternalError\<close> stands for an
  exception of a library the code calls.
\<close>

datatype error = TypeError string | RangeError string | ExternalError string

definition andThen :: "error + 'a \<Rightarrow> ('a \<Rightarrow> error + 'b) \<Rightarrow> error + 'b" where
  "andThen r f = (case r of Inl e \<Rightarrow> Inl e | Inr x \<Rightarrow> f x)"

text \<open>\<open>forEach\<close> and \<open>map\<close> with a callback that may throw: the first exception ends the loop.\<close>

fun mapResult :: "('a \<Rightarrow> error + 'b) \<Rightarrow> 'a list \<Rightarrow> error + 'b list" where
  "mapResult f [] = Inr []"
| "mapResult f (x # xs) = andThen (f x) (\<lambda>y. andThen (mapResult f xs) (\<lambda>ys. Inr (y # ys)))"

text \<open>
  A value of type \<open>any\<close>: what \<open>JSON.parse\<close> returns, and \<open>undefined\<close>. Numbers stand in
  positions the code never computes with, and are integers here.
\<close>

datatype jsval = JUndefined | JNull | JBool bool | JNum int | JStr string
  | JArr "jsval list" | JObj "(string \<times> jsval) list"

fun truthy :: "jsval \<Rightarrow> bool" where
  "truthy JUndefined = False"
| "truthy JNull = False"
| "truthy (JBool b) = b"
| "truthy (JNum n) = (n \<noteq> 0)"
| "truthy (JStr s) = (s \<noteq> [])"
| "truthy (JArr xs) = True"
| "truthy (JObj kvs) = True"

text \<open>
  A plain object is the list of its own properties, in the order the object enumerates
  them. \<open>obj[k] = v\<close> replaces the value of an own property in place and appends a new
  one (\<open>AList.update\<close>); \<open>delete obj[k]\<close> removes it (\<open>AList.delete\<close>). Property names
  that are array indices, which JavaScript enumerates first and in numeric order, are
  not told apart from other names.

  Plain objects inherit from \<open>Object.prototype\<close>. Assigning to the name \<open>__proto__\<close>
  runs the inherited setter and creates no own property; reading a name that is not an
  own property finds the inherited member of that name, if there is one.
\<close>

definition objectPrototypeMembers :: "string list" where
  "objectPrototypeMembers =
     [''constructor'', ''__defineGetter__'', ''__defineSetter__'', ''hasOwnProperty'',
      ''__lookupGetter__'', ''__lookupSetter__'', ''isPrototypeOf'', ''propertyIsEnumerable'',
      ''toString'', ''valueOf'', ''__proto__'', ''toLocaleString'']"

definition setProp :: "string \<Rightarrow> 'a \<Rightarrow> (string \<times> 'a) list \<Rightarrow> (string \<times> 'a) list" where
  "setProp k v obj = (if k = ''__proto__'' then obj else AList.update k v obj)"

datatype 'a propertyRead = Own 'a | Inherited string | Missing

definition getProp :: "(string \<times> 'a) list \<Rightarrow> string \<Rightarrow> 'a propertyRead" where
  "getProp obj k =
     (case map_of obj k of
        Some v \<Rightarrow> Own v
      | None \<Rightarrow> if k \<in> set objectPrototypeMembers then Inherited k else Missing)"

text \<open>\<open>Array.prototype.join\<close> on strings.\<close>

fun joinWith :: "string \<Rightarrow> string list \<Rightarrow> string" where
  "joinWith sep [] = []"
| "joinWith sep [x] = x"
| "joinWith sep (x # y # ys) = x @ sep @ joinWith sep (y # ys)"

text \<open>
  \<open>String(v)\<close>, the conversion a value goes through when it is used as a property name.
\<close>

fun jsToString :: "jsval \<Rightarrow> string" where
  "jsToString JUndefined = ''undefined''"
| "jsToString JNull = ''null''"
| "jsToString (JBool b) = (if b then ''true'' else ''false'')"
| "jsToString (JNum n) = numberToString n"
| "jsToString (JStr s) = s"
| "jsToString (JArr xs) =
     joinWith '','' (map (\<lambda>x. if x = JUndefined \<or> x = JNull then [] else jsToString x) xs)"
| "jsToString (JObj kvs) = ''[object Object]''"

section \<open>Category resolution in \<open>Generator.generate\<close> (cli.ts)\<close>

record CategoryInfo =
  cat_id :: int
  cat_name :: string

text \<open>
  The block of \<open>Generator.generate\<close> that turns \<open>categoryConfig.id\<close> and the project's
  categories \<open>projectInfo.cats\<close> into the list of category ids to fetch.
\<close>

definition resolveCategoryIds :: "int OneOrMore \<Rightarrow> CategoryInfo list \<Rightarrow> int list" where
  "resolveCategoryIds configId cats =
     (let categoryIds = castArray configId;
          categoryIds = (if 0 \<in> set categoryIds then categoryIds @ map cat_id cats else categoryIds);
          categoryIds = uniq categoryIds;
          excludedCategoryIds = map abs (filter (\<lambda>i. i < 0) categoryIds);
          categoryIds = filter (\<lambda>i. abs i \<notin> set excludedCategoryIds) categoryIds;
          categoryIds = filter (\<lambda>i. find (\<lambda>c. cat_id c = i) cats \<noteq> None) categoryIds
      in defaultSort categoryIds)"

text \<open>The ids before the final sort: the configured ids, with the project's ids appended when 0 is configured.\<close>

definition expandedIds :: "int OneOrMore \<Rightarrow> CategoryInfo list \<Rightarrow> int list" where
  "expandedIds configId cats =
     (if 0 \<in> set (castArray configId) then castArray configId @ map cat_id cats else castArray configId)"

section \<open>Ordering fragments by weight vectors: \<open>sortByWeights\<close> (utils.ts)\<close>

text \<open>
  \<open>sortByWeights<T extends {weights: number[]}>\<close> takes any object with a \<open>weights\<close>
  array: an extensible record. The weights are positions in the nested iteration, that
  is integers.
\<close>

record Weighted =
  weights :: "int list"

text \<open>
  The comparison function handed to \<open>list.sort\<close>. It pushes zeros onto the shorter of
  the two \<open>weights\<close> arrays, in place, until both have the same length, and returns the
  first non-zero difference \<open>a.weights[i] - b.weights[i]\<close>. The model returns that
  number together with the two items as the call leaves them.
\<close>

definition compareWeights ::
  "'a Weighted_scheme \<Rightarrow> 'a Weighted_scheme \<Rightarrow> int \<times> 'a Weighted_scheme \<times> 'a Weighted_scheme" where
  "compareWeights a b =
     (let minLen = min (length (weights a)) (length (weights b));
          maxLen = max (length (weights a)) (length (weights b));
          fill = replicate (maxLen - minLen) 0;
          a' = (if length (weights a) > length (weights b) then a else a\<lparr>weights := weights a @ fill\<rparr>);
          b' = (if length (weights a) > length (weights b) then b\<lparr>weights := weights b @ fill\<rparr> else b);
          w = foldl (\<lambda>w i. if w = 0 then weights a' ! i - weights b' ! i else w) 0 [0..<length (weights a')]
      in (w, a', b'))"

text \<open>
  \<open>Array.prototype.sort\<close> with a comparison function is stable and calls the function
  on pairs of elements; which pairs is left to the engine. It is modelled as a stable
  insertion sort: an element goes in front of the first element it does not compare
  greater than. Every item carries the zeros pushed by the comparisons it took part in.
\<close>

fun insertByWeights :: "'a Weighted_scheme \<Rightarrow> 'a Weighted_scheme list \<Rightarrow> 'a Weighted_scheme list" where
  "insertByWeights a [] = [a]"
| "insertByWeights a (b # bs) =
     (case compareWeights a b of
        (w, a', b') \<Rightarrow> if w \<le> 0 then a' # b' # bs else b' # insertByWeights a' bs)"

definition sortByWeights :: "'a Weighted_scheme list \<Rightarrow> 'a Weighted_scheme list" where
  "sortByWeights list = foldr insertByWeights list []"

text \<open>
  The order the specification names: pad the shorter vector with zeros to the length of
  the longer one, then compare lexicographically.
\<close>

definition zeroPad :: "nat \<Rightarrow> int list \<Rightarrow> int list" where
  "zeroPad n u = u @ replicate (n - length u) 0"

fun lexLess :: "int list \<Rightarrow> int list \<Rightarrow> bool" where
  "lexLess (x # xs) (y # ys) = (x < y \<or> (x = y \<and> lexLess xs ys))"
| "lexLess _ _ = False"

definition paddedLess :: "int list \<Rightarrow> int list \<Rightarrow> bool" where
  "paddedLess u v = (let n = max (length u) (length v) in lexLess (zeroPad n u) (zeroPad n v))"

text \<open>
  A vector without its trailing zeros: what stays the same when zeros are pushed.
\<close>

fun dropTrailingZeros :: "int list \<Rightarrow> int list" where
  "dropTrailingZeros [] = []"
| "dropTrailingZeros (x # xs) = (let r = dropTrailingZeros xs in if x = 0 \<and> r = [] then [] else x # r)"

text \<open>The first non-zero difference of two vectors, by recursion instead of by index.\<close>

fun firstDiff :: "int list \<Rightarrow> int list \<Rightarrow> int" where
  "firstDiff (x # xs) (y # ys) = (if x = y then firstDiff xs ys else x - y)"
| "firstDiff _ _ = 0"

definition normalizeWeights :: "'a Weighted_scheme \<Rightarrow> 'a Weighted_scheme" where
  "normalizeWeights a = a\<lparr>weights := dropTrailingZeros (weights a)\<rparr>"

section \<open>JSON Schema trees (\<open>JSONSchema4\<close>)\<close>

text \<open>
  A schema node, with the fields the code reads by name: \<open>type\<close> (one name or an array
  of names), \<open>properties\<close>, \<open>items\<close> (one schema or a tuple), \<open>required\<close> (a flag or a
  list of names) and the three combinators. Every other own property of the node
  (\<open>$ref\<close>, \<open>title\<close>, \<open>description\<close>, \<open>default\<close>, \<open>__is_any__\<close>, \<open>name\<close>, ...) is kept in
  \<open>extras\<close>, as a value of type \<open>any\<close>.

  \<open>properties\<close> is a name-keyed mapping; \<open>Mock.toJSONSchema\<close> produces an array of
  schemas that carry their name instead, which the traversal rewrites.

  A \<open>type\<close> is a string. The one other value the code ever stores there is a member
  inherited from \<open>Object.prototype\<close>, which the lookup in the type table finds for the
  names \<open>constructor\<close> and \<open>__proto__\<close>; it is a function or an object, not a string.
\<close>

datatype tyval = TName string | TMember string

datatype 'a props = PropsObject "(string \<times> 'a) list" | PropsArray "'a list"

datatype requiredField = RequiredFlag bool | RequiredNames "string list"

datatype schema = Schema
  (stype: "tyval OneOrMore option")
  (properties: "schema props option")
  (items: "schema OneOrMore option")
  (required: "requiredField option")
  (oneOf: "schema list option")
  (anyOf: "schema list option")
  (allOf: "schema list option")
  (extras: "(string \<times> jsval) list")

definition emptySchema :: schema where
  "emptySchema = Schema None None None None None None None []"

text \<open>The schemas directly below a node, in the order the traversal visits them.\<close>

fun propsValues :: "'a props \<Rightarrow> 'a list" where
  "propsValues (PropsObject ps) = map snd ps"
| "propsValues (PropsArray xs) = xs"

definition childList :: "schema \<Rightarrow> schema list" where
  "childList js =
     (case properties js of None \<Rightarrow> [] | Some p \<Rightarrow> propsValues p)
     @ (case items js of None \<Rightarrow> [] | Some i \<Rightarrow> castArray i)
     @ (case oneOf js of None \<Rightarrow> [] | Some xs \<Rightarrow> xs)
     @ (case anyOf js of None \<Rightarrow> [] | Some xs \<Rightarrow> xs)
     @ (case allOf js of None \<Rightarrow> [] | Some xs \<Rightarrow> xs)"

definition children :: "schema \<Rightarrow> schema set" where
  "children js = set (childList js)"

lemma set_propsValues: "set (propsValues p) = set_props p"
  by (cases p) (force simp: Basic_BNFs.snds.simps)+

lemma set_castArray: "set (castArray i) = set_OneOrMore i"
  by (cases i) auto

lemma children_eq:
  "children js =
     (case properties js of None \<Rightarrow> {} | Some p \<Rightarrow> set_props p)
     \<union> (case items js of None \<Rightarrow> {} | Some i \<Rightarrow> set_OneOrMore i)
     \<union> (case oneOf js of None \<Rightarrow> {} | Some xs \<Rightarrow> set xs)
     \<union> (case anyOf js of None \<Rightarrow> {} | Some xs \<Rightarrow> set xs)
     \<union> (case allOf js of None \<Rightarrow> {} | Some xs \<Rightarrow> set xs)"
  unfolding children_def childList_def
  by (auto simp: set_propsValues set_castArray split: option.splits)

lemma size_list_member: "x \<in> set xs \<Longrightarrow> f x < Suc (size_list f xs)"
  by (induction xs) auto

lemma children_size: "c \<in> children js \<Longrightarrow> size c < size js"
proof (cases js)
  case (Schema t p i r o1 a1 l1 e)
  assume "c \<in> children js"
  then consider
      (p) q where "p = Some q" "c \<in> set_props q"
    | (i) j where "i = Some j" "c \<in> set_OneOrMore j"
    | (o) xs where "o1 = Some xs" "c \<in> set xs"
    | (a) xs where "a1 = Some xs" "c \<in> set xs"
    | (l) xs where "l1 = Some xs" "c \<in> set xs"
    unfolding children_eq Schema by (auto split: option.splits)
  then show ?thesis
  proof cases
    case p
    then have "size c < size_props size q"
      by (cases q) (auto dest: size_list_member[where f = size]
          size_list_member[where f = "size_prod (\<lambda>_. 0) size"] simp: Basic_BNFs.snds.simps)
    then show ?thesis using p Schema by simp
  next
    case i
    then have "size c < size_OneOrMore size j"
      by (cases j) (auto dest: size_list_member[where f = size])
    then show ?thesis using i Schema by simp
  next
    case o
    then show ?thesis using Schema size_list_member[of c xs size] by simp
  next
    case a
    then show ?thesis using Schema size_list_member[of c xs size] by simp
  next
    case l
    then show ?thesis using Schema size_list_member[of c xs size] by simp
  qed
qed

lemma childList_cong [fundef_cong]:
  "js = js' \<Longrightarrow> (\<And>c. c \<in> children js' \<Longrightarrow> f c = g c) \<Longrightarrow> map f (childList js) = map g (childList js')"
  by (simp add: children_def)

text \<open>All nodes of a tree, the root first.\<close>

function nodes :: "schema \<Rightarrow> schema list" where
  "nodes js = js # concat (map nodes (childList js))"
  by pat_completeness auto
termination
  by (relation "measure size") (auto simp: children_size children_def)

declare nodes.simps [simp del]

section \<open>The schema normalizer: \<open>traverseJsonSchema\<close> and \<open>processJsonSchema\<close> (utils.ts)\<close>

text \<open>
  \<open>processJsonSchema\<close> rewrites the tree it is given in place and returns it. What is
  stated about it concerns the tree it returns, so here a schema is a value and each
  write is the step to the next value. The synthesizer, where the question is which
  objects are written, is modelled on a store further down.
\<close>

definition withProperties :: "schema props option \<Rightarrow> schema \<Rightarrow> schema" where
  "withProperties p js = Schema (stype js) p (items js) (required js) (oneOf js) (anyOf js) (allOf js) (extras js)"


text \<open>
  The first step of \<open>traverseJsonSchema\<close>: a \<open>properties\<close> array is folded into a mapping
  keyed by \<open>js.name\<close> of each element.
\<close>

definition propertyKey :: "schema \<Rightarrow> string" where
  "propertyKey js = jsToString (case map_of (extras js) ''name'' of None \<Rightarrow> JUndefined | Some v \<Rightarrow> v)"

definition repairProperties :: "schema \<Rightarrow> schema" where
  "repairProperties jsonSchema =
     (case properties jsonSchema of
        Some (PropsArray xs) \<Rightarrow>
          withProperties (Some (PropsObject (foldl (\<lambda>props js. setProp (propertyKey js) js props) [] xs))) jsonSchema
      | _ \<Rightarrow> jsonSchema)"

text \<open>
  The rest of \<open>traverseJsonSchema\<close> after the callback: the recursive calls on the
  values of \<open>properties\<close> (with the key appended to the path), on \<open>castArray(items)\<close>
  (with the index appended), and on the members of \<open>oneOf\<close>, \<open>anyOf\<close> and \<open>allOf\<close> (with
  the path unchanged), in this order. \<open>f\<close> is the recursive call.
\<close>

datatype pathKey = Key string | Index nat

fun traverseProperties ::
  "(pathKey list \<Rightarrow> schema \<Rightarrow> error + schema) \<Rightarrow> pathKey list \<Rightarrow> schema props option \<Rightarrow> error + schema props option" where
  "traverseProperties f currentPath None = Inr None"
| "traverseProperties f currentPath (Some (PropsObject ps)) =
     andThen (mapResult (\<lambda>(key, item). andThen (f (currentPath @ [Key key]) item) (\<lambda>item'. Inr (key, item'))) ps)
       (\<lambda>ps'. Inr (Some (PropsObject ps')))"
| "traverseProperties f currentPath (Some (PropsArray xs)) =
     andThen (mapResult (\<lambda>(n, item). f (currentPath @ [Key (natToString n)]) item) (enumerate 0 xs))
       (\<lambda>xs'. Inr (Some (PropsArray xs')))"

fun traverseItems ::
  "(pathKey list \<Rightarrow> schema \<Rightarrow> error + schema) \<Rightarrow> pathKey list \<Rightarrow> schema OneOrMore option \<Rightarrow> error + schema OneOrMore option" where
  "traverseItems f currentPath None = Inr None"
| "traverseItems f currentPath (Some (One item)) =
     andThen (f (currentPath @ [Index 0]) item) (\<lambda>item'. Inr (Some (One item')))"
| "traverseItems f currentPath (Some (More xs)) =
     andThen (mapResult (\<lambda>(n, item). f (currentPath @ [Index n]) item) (enumerate 0 xs))
       (\<lambda>xs'. Inr (Some (More xs')))"

fun traverseAll ::
  "(pathKey list \<Rightarrow> schema \<Rightarrow> error + schema) \<Rightarrow> pathKey list \<Rightarrow> schema list option \<Rightarrow> error + schema list option" where
  "traverseAll f currentPath None = Inr None"
| "traverseAll f currentPath (Some xs) = andThen (mapResult (f currentPath) xs) (\<lambda>xs'. Inr (Some xs'))"

definition descend ::
  "(pathKey list \<Rightarrow> schema \<Rightarrow> error + schema) \<Rightarrow> pathKey list \<Rightarrow> schema \<Rightarrow> error + schema" where
  "descend f currentPath jsonSchema =
     andThen (traverseProperties f currentPath (properties jsonSchema)) (\<lambda>p.
     andThen (traverseItems f currentPath (items jsonSchema)) (\<lambda>i.
     andThen (traverseAll f currentPath (oneOf jsonSchema)) (\<lambda>o1.
     andThen (traverseAll f currentPath (anyOf jsonSchema)) (\<lambda>a1.
     andThen (traverseAll f currentPath (allOf jsonSchema)) (\<lambda>l1.
       Inr (Schema (stype jsonSchema) p i (required jsonSchema) o1 a1 l1 (extras jsonSchema)))))))"

text \<open>
  The type table of \<open>processJsonSchema\<close>: the built-in entries, then the entries of
  \<open>customTypeMapping\<close> under their lowercased keys (\<open>mapKeys\<close>), spread over them. The
  targets of the custom table are of type \<open>JSONSchema4TypeName\<close>.
\<close>

datatype JSONSchema4TypeName =
  TypeString | TypeNumber | TypeInteger | TypeBoolean | TypeObject | TypeArray | TypeNull | TypeAny

fun typeNameText :: "JSONSchema4TypeName \<Rightarrow> string" where
  "typeNameText TypeString = ''string''"
| "typeNameText TypeNumber = ''number''"
| "typeNameText TypeInteger = ''integer''"
| "typeNameText TypeBoolean = ''boolean''"
| "typeNameText TypeObject = ''object''"
| "typeNameText TypeArray = ''array''"
| "typeNameText TypeNull = ''null''"
| "typeNameText TypeAny = ''any''"

definition builtinTypeMapping :: "(string \<times> string) list" where
  "builtinTypeMapping =
     [(''byte'', ''integer''), (''short'', ''integer''), (''int'', ''integer''), (''long'', ''integer''),
      (''float'', ''number''), (''double'', ''number''), (''bigdecimal'', ''number''),
      (''char'', ''string''), (''void'', ''null'')]"

definition mapKeysLower :: "(string \<times> JSONSchema4TypeName) list \<Rightarrow> (string \<times> JSONSchema4TypeName) list" where
  "mapKeysLower customTypeMapping =
     foldl (\<lambda>res (key, v). AList.update (toLowerCase key) v res) [] customTypeMapping"

definition typeMapping :: "(string \<times> JSONSchema4TypeName) list \<Rightarrow> (string \<times> string) list" where
  "typeMapping customTypeMapping =
     foldl (\<lambda>tm (key, v). AList.update key (typeNameText v) tm) builtinTypeMapping
       (mapKeysLower customTypeMapping)"

text \<open>
  One type name through the table: \<open>type = type.toLowerCase(); type = typeMapping[type] || type\<close>.
  A value that is not a string has no \<open>toLowerCase\<close>.
\<close>

fun normalizeType :: "(string \<times> string) list \<Rightarrow> tyval \<Rightarrow> error + tyval" where
  "normalizeType tm (TName t) =
     (let l = toLowerCase t
      in Inr (case getProp tm l of
                Own v \<Rightarrow> if v \<noteq> [] then TName v else TName l
              | Inherited k \<Rightarrow> TMember k
              | Missing \<Rightarrow> TName l))"
| "normalizeType tm (TMember k) = Inl (TypeError ''type.toLowerCase is not a function'')"

fun typeIsTruthy :: "tyval OneOrMore option \<Rightarrow> bool" where
  "typeIsTruthy None = False"
| "typeIsTruthy (Some (One (TName s))) = (s \<noteq> [])"
| "typeIsTruthy (Some (One (TMember k))) = True"
| "typeIsTruthy (Some (More ts)) = True"

fun normalizeTypes :: "(string \<times> string) list \<Rightarrow> tyval OneOrMore \<Rightarrow> error + tyval OneOrMore" where
  "normalizeTypes tm (One t) = andThen (normalizeType tm t) (\<lambda>t'. Inr (One t'))"
| "normalizeTypes tm (More ts) = andThen (mapResult (normalizeType tm) ts) (\<lambda>ts'. Inr (More ts'))"

text \<open>
  The loop that trims the property names: for every own key, in order, the value is
  read, the key deleted and the value stored under the trimmed key.
\<close>

definition trimKeys :: "(string \<times> 'a) list \<Rightarrow> (string \<times> 'a) list" where
  "trimKeys props =
     foldl (\<lambda>ps prop. case map_of ps prop of
                         None \<Rightarrow> ps
                       | Some propDef \<Rightarrow> setProp (trim prop) propDef (AList.delete prop ps))
       props (map fst props)"

fun trimRequired :: "requiredField option \<Rightarrow> requiredField option" where
  "trimRequired (Some (RequiredNames ns)) = Some (RequiredNames (map trim ns))"
| "trimRequired r = r"

text \<open>The callback \<open>processJsonSchema\<close> hands to the traversal.\<close>

definition processNode :: "(string \<times> JSONSchema4TypeName) list \<Rightarrow> schema \<Rightarrow> error + schema" where
  "processNode customTypeMapping jsonSchema =
     (let e = AList.delete ''$$ref'' (AList.delete ''$ref'' (extras jsonSchema));
          i = (case (stype jsonSchema, items jsonSchema) of
                 (Some (One (TName t)), Some (More (x # xs))) \<Rightarrow>
                   if t = ''array'' then Some (One x) else items jsonSchema
               | _ \<Rightarrow> items jsonSchema)
      in andThen (if typeIsTruthy (stype jsonSchema)
                  then andThen (normalizeTypes (typeMapping customTypeMapping) (the (stype jsonSchema)))
                         (\<lambda>t. Inr (Some t))
                  else Inr (stype jsonSchema))
           (\<lambda>t. Inr (case properties jsonSchema of
                       Some (PropsObject ps) \<Rightarrow>
                         Schema t (Some (PropsObject (trimKeys ps))) i (trimRequired (required jsonSchema))
                           (oneOf jsonSchema) (anyOf jsonSchema) (allOf jsonSchema) e
                     | Some (PropsArray xs) \<Rightarrow>
                         Schema t (Some (PropsArray xs)) i (trimRequired (required jsonSchema))
                           (oneOf jsonSchema) (anyOf jsonSchema) (allOf jsonSchema) e
                     | None \<Rightarrow>
                         Schema t None i (required jsonSchema)
                           (oneOf jsonSchema) (anyOf jsonSchema) (allOf jsonSchema) e)))"

lemma andThen_cong [fundef_cong]:
  "r = r' \<Longrightarrow> (\<And>x. r' = Inr x \<Longrightarrow> f x = g x) \<Longrightarrow> andThen r f = andThen r' g"
  by (auto simp: andThen_def split: sum.splits)

lemma mapResult_cong [fundef_cong]:
  "xs = ys \<Longrightarrow> (\<And>x. x \<in> set ys \<Longrightarrow> f x = g x) \<Longrightarrow> mapResult f xs = mapResult g ys"
  by (induction ys arbitrary: xs) (auto intro: andThen_cong)

lemma traverseProperties_cong:
  "(\<And>q c cp. p = Some q \<Longrightarrow> c \<in> set_props q \<Longrightarrow> f cp c = g cp c) \<Longrightarrow>
   traverseProperties f currentPath p = traverseProperties g currentPath p"
proof (cases p)
  case None
  then show ?thesis by simp
next
  case (Some q)
  assume h: "\<And>q c cp. p = Some q \<Longrightarrow> c \<in> set_props q \<Longrightarrow> f cp c = g cp c"
  show ?thesis
  proof (cases q)
    case (PropsObject ps)
    have "\<And>x. x \<in> set ps \<Longrightarrow> f (currentPath @ [Key (fst x)]) (snd x) = g (currentPath @ [Key (fst x)]) (snd x)"
      using h[OF Some] PropsObject by (force simp: Basic_BNFs.snds.simps)
    then show ?thesis unfolding Some PropsObject
      by (auto intro!: andThen_cong mapResult_cong simp: case_prod_beta)
  next
    case (PropsArray xs)
    have "\<And>x. x \<in> set (enumerate 0 xs) \<Longrightarrow> f (currentPath @ [Key (natToString (fst x))]) (snd x)
        = g (currentPath @ [Key (natToString (fst x))]) (snd x)"
      using h[OF Some] PropsArray by (auto simp: in_set_enumerate_eq)
    then show ?thesis unfolding Some PropsArray
      by (auto intro!: andThen_cong mapResult_cong simp: case_prod_beta)
  qed
qed

lemma traverseItems_cong:
  "(\<And>q c cp. i = Some q \<Longrightarrow> c \<in> set_OneOrMore q \<Longrightarrow> f cp c = g cp c) \<Longrightarrow>
   traverseItems f currentPath i = traverseItems g currentPath i"
proof (cases i)
  case None
  then show ?thesis by simp
next
  case (Some q)
  assume h: "\<And>q c cp. i = Some q \<Longrightarrow> c \<in> set_OneOrMore q \<Longrightarrow> f cp c = g cp c"
  show ?thesis
  proof (cases q)
    case (One x)
    then show ?thesis unfolding Some using h[OF Some] by (auto intro!: andThen_cong)
  next
    case (More xs)
    have "\<And>x. x \<in> set (enumerate 0 xs) \<Longrightarrow> f (currentPath @ [Index (fst x)]) (snd x)
        = g (currentPath @ [Index (fst x)]) (snd x)"
      using h[OF Some] More by (auto simp: in_set_enumerate_eq)
    then show ?thesis unfolding Some More
      by (auto intro!: andThen_cong mapResult_cong simp: case_prod_beta)
  qed
qed

lemma traverseAll_cong:
  "(\<And>xs c cp. l = Some xs \<Longrightarrow> c \<in> set xs \<Longrightarrow> f cp c = g cp c) \<Longrightarrow>
   traverseAll f currentPath l = traverseAll g currentPath l"
  by (cases l) (auto intro!: andThen_cong mapResult_cong)

lemma descend_cong [fundef_cong]:
  assumes "js = js'" "currentPath = currentPath'"
    and "\<And>c cp. c \<in> children js' \<Longrightarrow> f cp c = g cp c"
  shows "descend f currentPath js = descend g currentPath' js'"
proof -
  have p: "traverseProperties f currentPath' (properties js') = traverseProperties g currentPath' (properties js')"
    by (rule traverseProperties_cong) (auto intro!: assms(3) simp: children_eq)
  have i: "traverseItems f currentPath' (items js') = traverseItems g currentPath' (items js')"
    by (rule traverseItems_cong) (auto intro!: assms(3) simp: children_eq)
  have o: "traverseAll f currentPath' (oneOf js') = traverseAll g currentPath' (oneOf js')"
    by (rule traverseAll_cong) (auto intro!: assms(3) simp: children_eq)
  have a: "traverseAll f currentPath' (anyOf js') = traverseAll g currentPath' (anyOf js')"
    by (rule traverseAll_cong) (auto intro!: assms(3) simp: children_eq)
  have l: "traverseAll f currentPath' (allOf js') = traverseAll g currentPath' (allOf js')"
    by (rule traverseAll_cong) (auto intro!: assms(3) simp: children_eq)
  show ?thesis unfolding assms(1,2) descend_def p i o a l ..
qed

text \<open>
  The callback moves schemas around and never builds one: the schemas below the node it
  returns are among those below the node it was given. This bounds the recursion.
\<close>

lemma values_update: "snd ` set (AList.update k v al) \<subseteq> insert v (snd ` set al)"
  by (induction al) auto

lemma values_delete: "snd ` set (AList.delete k al) \<subseteq> snd ` set al"
  by (auto simp: AList.delete_eq)

lemma values_setProp: "snd ` set (setProp k v al) \<subseteq> insert v (snd ` set al)"
  using values_update[of k v al] by (auto simp: setProp_def)

definition trimStep :: "(string \<times> 'a) list \<Rightarrow> string \<Rightarrow> (string \<times> 'a) list" where
  "trimStep ps pname =
     (case map_of ps pname of
        None \<Rightarrow> ps
      | Some propDef \<Rightarrow> setProp (trim pname) propDef (AList.delete pname ps))"

lemma trimKeys_trimStep: "trimKeys props = foldl trimStep props (map fst props)"
  unfolding trimKeys_def trimStep_def ..

lemma values_trimStep: "snd ` set (trimStep ps k) \<subseteq> snd ` set ps"
proof (cases "map_of ps k")
  case None
  then show ?thesis by (simp add: trimStep_def)
next
  case (Some v)
  then have "v \<in> snd ` set ps" by (force dest: map_of_SomeD)
  then show ?thesis
    using values_setProp[of "trim k" v "AList.delete k ps"] values_delete[of k ps] Some
    by (auto simp: trimStep_def)
qed

lemma values_trimFold: "snd ` set (foldl trimStep props ks) \<subseteq> snd ` set props"
proof (induction ks arbitrary: props)
  case Nil
  show ?case by simp
next
  case (Cons k ks)
  have "snd ` set (foldl trimStep (trimStep props k) ks) \<subseteq> snd ` set (trimStep props k)"
    by (rule Cons.IH)
  also have "\<dots> \<subseteq> snd ` set props" by (rule values_trimStep)
  finally show ?case by simp
qed

lemma values_trimKeys: "snd ` set (trimKeys props) \<subseteq> snd ` set props"
  unfolding trimKeys_trimStep by (rule values_trimFold)

lemma values_repairFold:
  "snd ` set (foldl (\<lambda>props js. setProp (propertyKey js) js props) init xs) \<subseteq> snd ` set init \<union> set xs"
proof (induction xs arbitrary: init)
  case Nil
  show ?case by simp
next
  case (Cons x xs)
  have "snd ` set (foldl (\<lambda>props js. setProp (propertyKey js) js props) (setProp (propertyKey x) x init) xs)
      \<subseteq> snd ` set (setProp (propertyKey x) x init) \<union> set xs"
    by (rule Cons.IH)
  also have "\<dots> \<subseteq> snd ` set init \<union> set (x # xs)"
    using values_setProp[of "propertyKey x" x init] by auto
  finally show ?case by simp
qed

lemma set_props_PropsObject: "set_props (PropsObject ps) = snd ` set ps"
  by (force simp: Basic_BNFs.snds.simps)

lemma set_props_PropsArray: "set_props (PropsArray xs) = set xs"
  by simp

lemma children_repairProperties: "children (repairProperties js) \<subseteq> children js"
proof (cases "properties js")
  case None
  then show ?thesis by (simp add: repairProperties_def)
next
  case (Some p)
  show ?thesis
  proof (cases p)
    case (PropsObject ps)
    then show ?thesis using Some by (simp add: repairProperties_def)
  next
    case (PropsArray xs)
    then show ?thesis
      using Some values_repairFold[of "[]" xs]
      unfolding repairProperties_def withProperties_def children_eq
      by (auto simp: set_props_PropsObject set_props_PropsArray simp del: props.set)
  qed
qed

lemma children_processNode:
  assumes "processNode m js = Inr js'"
  shows "children js' \<subseteq> children js"
proof -
  let ?i = "case (stype js, items js) of
                 (Some (One (TName t)), Some (More (x # xs))) \<Rightarrow>
                   if t = ''array'' then Some (One x) else items js
               | _ \<Rightarrow> items js"
  have i: "(case ?i of None \<Rightarrow> {} | Some i \<Rightarrow> set_OneOrMore i)
      \<subseteq> (case items js of None \<Rightarrow> {} | Some i \<Rightarrow> set_OneOrMore i)"
    by (auto split: option.splits OneOrMore.splits tyval.splits list.splits if_splits)
  obtain t where js': "js' = (case properties js of
                       Some (PropsObject ps) \<Rightarrow>
                         Schema t (Some (PropsObject (trimKeys ps))) ?i (trimRequired (required js))
                           (oneOf js) (anyOf js) (allOf js) (AList.delete ''$$ref'' (AList.delete ''$ref'' (extras js)))
                     | Some (PropsArray xs) \<Rightarrow>
                         Schema t (Some (PropsArray xs)) ?i (trimRequired (required js))
                           (oneOf js) (anyOf js) (allOf js) (AList.delete ''$$ref'' (AList.delete ''$ref'' (extras js)))
                     | None \<Rightarrow>
                         Schema t None ?i (required js)
                           (oneOf js) (anyOf js) (allOf js) (AList.delete ''$$ref'' (AList.delete ''$ref'' (extras js))))"
    using assms unfolding processNode_def Let_def andThen_def
    by (auto split: sum.splits if_splits)
  show ?thesis
  proof (cases "properties js")
    case None
    then show ?thesis using i unfolding js' children_eq by auto
  next
    case (Some p)
    show ?thesis
    proof (cases p)
      case (PropsObject ps)
      then show ?thesis
        using i Some values_trimKeys[of ps] unfolding js' children_eq
        by (auto simp: set_props_PropsObject set_props_PropsArray simp del: props.set)
    next
      case (PropsArray xs)
      then show ?thesis using i Some unfolding js' children_eq by auto
    qed
  qed
qed

text \<open>
  \<open>processJsonSchema\<close>: \<open>traverseJsonSchema\<close> with this callback. Each call repairs the
  \<open>properties\<close> of the node, runs the callback on it and then descends into the node the
  callback left.
\<close>

function processJsonSchema :: "(string \<times> JSONSchema4TypeName) list \<Rightarrow> schema \<Rightarrow> error + schema" where
  "processJsonSchema customTypeMapping jsonSchema =
     andThen (processNode customTypeMapping (repairProperties jsonSchema))
       (\<lambda>js. descend (\<lambda>currentPath item. processJsonSchema customTypeMapping item) [] js)"
  by pat_completeness auto
termination
proof (relation "measure (\<lambda>(m, js). size js)")
  show "wf (measure (\<lambda>(m, js). size js))" by simp
next
  fix customTypeMapping :: "(string \<times> JSONSchema4TypeName) list" and jsonSchema x c
  assume "processNode customTypeMapping (repairProperties jsonSchema) = Inr x" and "c \<in> children x"
  then have "c \<in> children jsonSchema"
    using children_processNode children_repairProperties by blast
  then show "((customTypeMapping, c), (customTypeMapping, jsonSchema)) \<in> measure (\<lambda>(m, js). size js)"
    by (simp add: children_size)
qed

declare processJsonSchema.simps [simp del]

text \<open>
  The entry of the custom table that decides for a type name, in the words of the
  specification: the key matches the name regardless of case (if several keys do, the
  last one in the table).
\<close>

definition customTargetFor :: "(string \<times> JSONSchema4TypeName) list \<Rightarrow> string \<Rightarrow> JSONSchema4TypeName option" where
  "customTargetFor customTypeMapping t =
     (case filter (\<lambda>(key, v). toLowerCase key = toLowerCase t) customTypeMapping of
        [] \<Rightarrow> None
      | es \<Rightarrow> Some (snd (last es)))"

text \<open>A node that has a type and nothing else.\<close>

definition typeNode :: "string \<Rightarrow> schema" where
  "typeNode t = Schema (Some (One (TName t))) None None None None None None []"

text \<open>
  Conditions under which a second normalization changes nothing. The table is stable
  when it maps each of its targets to itself. A node is spelled when each of its type
  names normalizes to a string (and not to a member inherited by the table object), and
  when, if it has a non-empty tuple as \<open>items\<close> and a type that normalizes to \<open>array\<close>,
  that type is \<open>array\<close> as written.
\<close>

definition stableTable :: "(string \<times> JSONSchema4TypeName) list \<Rightarrow> bool" where
  "stableTable customTypeMapping =
     list_all (\<lambda>(key, v). normalizeType (typeMapping customTypeMapping) (TName v) = Inr (TName v))
       (typeMapping customTypeMapping)"

definition typesOf :: "schema \<Rightarrow> tyval list" where
  "typesOf js = (case stype js of None \<Rightarrow> [] | Some ty \<Rightarrow> castArray ty)"

fun normalizesToName :: "(string \<times> string) list \<Rightarrow> tyval \<Rightarrow> bool" where
  "normalizesToName tm t = (case normalizeType tm t of Inr (TName s) \<Rightarrow> True | _ \<Rightarrow> False)"

definition spelledNode :: "(string \<times> JSONSchema4TypeName) list \<Rightarrow> schema \<Rightarrow> bool" where
  "spelledNode customTypeMapping js =
     (list_all (normalizesToName (typeMapping customTypeMapping)) (typesOf js)
      \<and> (case (stype js, items js) of
            (Some (One (TName t)), Some (More (x # xs))) \<Rightarrow>
              t = ''array'' \<or> normalizeType (typeMapping customTypeMapping) (TName t) \<noteq> Inr (TName ''array'')
          | _ \<Rightarrow> True))"

definition spelledTree :: "(string \<times> JSONSchema4TypeName) list \<Rightarrow> schema \<Rightarrow> bool" where
  "spelledTree customTypeMapping js = list_all (spelledNode customTypeMapping) (nodes js)"

text \<open>
  The type a node is to have after normalization, in the words of the specification:
  the name is lowercased and mapped through the table, where an entry of the custom table
  whose key matches regardless of case comes before the built-in entries, and a name the
  table does not have stays as lowercased. A type that is an array of names is mapped
  name by name.
\<close>

definition specTypeName :: "(string \<times> JSONSchema4TypeName) list \<Rightarrow> string \<Rightarrow> string" where
  "specTypeName customTypeMapping t =
     (case customTargetFor customTypeMapping t of
        Some v \<Rightarrow> typeNameText v
      | None \<Rightarrow> (case map_of builtinTypeMapping (toLowerCase t) of
                   Some b \<Rightarrow> b
                 | None \<Rightarrow> toLowerCase t))"

fun specType :: "(string \<times> JSONSchema4TypeName) list \<Rightarrow> tyval \<Rightarrow> tyval" where
  "specType customTypeMapping (TName t) = TName (specTypeName customTypeMapping t)"
| "specType customTypeMapping (TMember k) = TMember k"

definition expectedType ::
  "(string \<times> JSONSchema4TypeName) list \<Rightarrow> tyval OneOrMore option \<Rightarrow> tyval OneOrMore option" where
  "expectedType customTypeMapping ty = map_option (map_OneOrMore (specType customTypeMapping)) ty"

text \<open>
  A type name is plain when it is a non-empty string and, lowercased, is in the custom
  table or is not the name of a member that the table object inherits (\<open>constructor\<close>,
  \<open>__proto__\<close>). A tree has plain types when all type names of all its nodes are plain.
\<close>

fun plainType :: "(string \<times> JSONSchema4TypeName) list \<Rightarrow> tyval \<Rightarrow> bool" where
  "plainType customTypeMapping (TName t) =
     (t \<noteq> [] \<and> (customTargetFor customTypeMapping t \<noteq> None
                  \<or> toLowerCase t \<notin> set objectPrototypeMembers))"
| "plainType customTypeMapping (TMember k) = False"

definition plainTypes :: "(string \<times> JSONSchema4TypeName) list \<Rightarrow> schema \<Rightarrow> bool" where
  "plainTypes customTypeMapping js =
     list_all (\<lambda>n. list_all (plainType customTypeMapping) (typesOf n)) (nodes js)"

section \<open>Path lookup: \<open>reachJsonSchema\<close> (utils.ts)\<close>

text \<open>
  The value of \<open>last\<close> in the loop of \<open>reachJsonSchema\<close>: a schema, or a member that the
  read \<open>last.properties?.[segment]\<close> found on \<open>Object.prototype\<close> (a function or the
  prototype object: truthy, and without a \<open>properties\<close> field of its own). Reading a
  segment from a \<open>properties\<close> value that is an array (an index, \<open>length\<close> or a method
  of the array) is outside this model and ends the walk as \<open>ArrayFormRead\<close>.
\<close>

datatype reached = Node schema | InheritedMember string | ArrayFormRead

fun reachLoop :: "schema \<Rightarrow> reached \<Rightarrow> string list \<Rightarrow> reached" where
  "reachLoop jsonSchema last' [] = last'"
| "reachLoop jsonSchema (Node n) (segment # rest) =
     (case properties n of
        None \<Rightarrow> Node jsonSchema
      | Some (PropsArray xs) \<Rightarrow> ArrayFormRead
      | Some (PropsObject ps) \<Rightarrow>
          (case getProp ps segment of
             Own s \<Rightarrow> reachLoop jsonSchema (Node s) rest
           | Inherited k \<Rightarrow> reachLoop jsonSchema (InheritedMember k) rest
           | Missing \<Rightarrow> Node jsonSchema))"
| "reachLoop jsonSchema (InheritedMember k) (segment # rest) = Node jsonSchema"
| "reachLoop jsonSchema ArrayFormRead (segment # rest) = ArrayFormRead"

definition reachJsonSchema :: "schema \<Rightarrow> string OneOrMore \<Rightarrow> reached" where
  "reachJsonSchema jsonSchema path = reachLoop jsonSchema (Node jsonSchema) (castArray path)"

text \<open>
  What the specification calls a property path that exists: every segment is an entry of
  the \<open>properties\<close> mapping at its position.
\<close>

fun ownPath :: "schema \<Rightarrow> string list \<Rightarrow> schema option" where
  "ownPath n [] = Some n"
| "ownPath n (segment # rest) =
     (case properties n of
        Some (PropsObject ps) \<Rightarrow>
          (case map_of ps segment of Some c \<Rightarrow> ownPath c rest | None \<Rightarrow> None)
      | _ \<Rightarrow> None)"

text \<open>
  The first segment of a path that is not an entry of \<open>properties\<close> at its position,
  with the segments after it.
\<close>

fun firstMissing :: "schema \<Rightarrow> string list \<Rightarrow> (string \<times> string list) option" where
  "firstMissing n [] = None"
| "firstMissing n (segment # rest) =
     (case properties n of
        Some (PropsObject ps) \<Rightarrow>
          (case map_of ps segment of Some c \<Rightarrow> firstMissing c rest | None \<Rightarrow> Some (segment, rest))
      | _ \<Rightarrow> Some (segment, rest))"

text \<open>The nodes the walk along a path reads \<open>properties\<close> from.\<close>

fun visited :: "schema \<Rightarrow> string list \<Rightarrow> schema list" where
  "visited n [] = []"
| "visited n (segment # rest) =
     n # (case properties n of
            Some (PropsObject ps) \<Rightarrow>
              (case map_of ps segment of Some c \<Rightarrow> visited c rest | None \<Rightarrow> [])
          | _ \<Rightarrow> [])"

fun isArrayForm :: "'a props option \<Rightarrow> bool" where
  "isArrayForm (Some (PropsArray xs)) = True"
| "isArrayForm _ = False"

text \<open>A schema that nests \<open>S\<close> under the chain of property names \<open>ks\<close> and holds nothing else.\<close>

fun wrapUnder :: "string list \<Rightarrow> schema \<Rightarrow> schema" where
  "wrapUnder [] S = S"
| "wrapUnder (k # ks) S = Schema None (Some (PropsObject [(k, wrapUnder ks S)])) None None None None None []"

section \<open>The type synthesizer: \<open>jsonSchemaToJSTTJsonSchema\<close> and \<open>jsonSchemaToType\<close> (utils.ts)\<close>

text \<open>
  The synthesizer is handed a reference to the caller's schema, copies it with
  \<open>cloneDeep\<close> and rewrites the copy in place. Which objects it writes is what matters
  here, so this part of the code is modelled on a store: a schema node is an object at an
  address, and the nodes below it are referred to by their addresses. The containers
  the node holds them in (the \<open>properties\<close> object, an \<open>items\<close> array, ...) and its other
  values belong to the node and are part of its cell. Addresses are the positions in
  the store; a new object is appended. An address outside the store stands for a value
  that is not an object.
\<close>

type_synonym addr = nat

datatype cell = Cell
  (ctype: "tyval OneOrMore option")
  (cproperties: "addr props option")
  (citems: "addr OneOrMore option")
  (crequired: "requiredField option")
  (coneOf: "addr list option")
  (canyOf: "addr list option")
  (callOf: "addr list option")
  (cextras: "(string \<times> jsval) list")

type_synonym store = "cell list"

definition emptyCell :: cell where
  "emptyCell = Cell None None None None None None None []"

definition objectAt :: "store \<Rightarrow> addr \<Rightarrow> cell option" where
  "objectAt \<sigma> a = (if a < length \<sigma> then Some (\<sigma> ! a) else None)"

definition cellAt :: "store \<Rightarrow> addr \<Rightarrow> cell" where
  "cellAt \<sigma> a = (case objectAt \<sigma> a of None \<Rightarrow> emptyCell | Some c \<Rightarrow> c)"

text \<open>The addresses a cell refers to.\<close>

definition cellChildren :: "cell \<Rightarrow> addr list" where
  "cellChildren c =
     (case cproperties c of None \<Rightarrow> [] | Some p \<Rightarrow> propsValues p)
     @ (case citems c of None \<Rightarrow> [] | Some i \<Rightarrow> castArray i)
     @ (case coneOf c of None \<Rightarrow> [] | Some xs \<Rightarrow> xs)
     @ (case canyOf c of None \<Rightarrow> [] | Some xs \<Rightarrow> xs)
     @ (case callOf c of None \<Rightarrow> [] | Some xs \<Rightarrow> xs)"

definition withCellProperties :: "addr props option \<Rightarrow> cell \<Rightarrow> cell" where
  "withCellProperties p c = Cell (ctype c) p (citems c) (crequired c) (coneOf c) (canyOf c) (callOf c) (cextras c)"

definition withCellExtras :: "(string \<times> jsval) list \<Rightarrow> cell \<Rightarrow> cell" where
  "withCellExtras e c = Cell (ctype c) (cproperties c) (citems c) (crequired c) (coneOf c) (canyOf c) (callOf c) e"

text \<open>
  The schema an object stands for, read through the references down to a given depth:
  what a deep comparison of the object looks at. There is no such schema when the
  references go deeper, or lead to a value that is not an object.
\<close>

fun readProps :: "(addr \<Rightarrow> schema option) \<Rightarrow> addr props option \<Rightarrow> schema props option option" where
  "readProps f None = Some None"
| "readProps f (Some (PropsObject ps)) =
     map_option (\<lambda>qs. Some (PropsObject qs)) (those (map (\<lambda>(key, c). map_option (Pair key) (f c)) ps))"
| "readProps f (Some (PropsArray xs)) = map_option (\<lambda>ys. Some (PropsArray ys)) (those (map f xs))"

fun readItems :: "(addr \<Rightarrow> schema option) \<Rightarrow> addr OneOrMore option \<Rightarrow> schema OneOrMore option option" where
  "readItems f None = Some None"
| "readItems f (Some (One c)) = map_option (\<lambda>s. Some (One s)) (f c)"
| "readItems f (Some (More cs)) = map_option (\<lambda>ys. Some (More ys)) (those (map f cs))"

fun readList :: "(addr \<Rightarrow> schema option) \<Rightarrow> addr list option \<Rightarrow> schema list option option" where
  "readList f None = Some None"
| "readList f (Some xs) = map_option Some (those (map f xs))"

primrec snapshot :: "nat \<Rightarrow> store \<Rightarrow> addr \<Rightarrow> schema option" where
  "snapshot 0 \<sigma> a = None"
| "snapshot (Suc depth) \<sigma> a =
     (case objectAt \<sigma> a of
        None \<Rightarrow> None
      | Some c \<Rightarrow>
          (case (readProps (snapshot depth \<sigma>) (cproperties c),
                 readItems (snapshot depth \<sigma>) (citems c),
                 readList (snapshot depth \<sigma>) (coneOf c),
                 readList (snapshot depth \<sigma>) (canyOf c),
                 readList (snapshot depth \<sigma>) (callOf c)) of
             (Some p, Some i, Some o1, Some a1, Some l1) \<Rightarrow>
               Some (Schema (ctype c) p i (crequired c) o1 a1 l1 (cextras c))
           | _ \<Rightarrow> None))"

text \<open>A store in which every reference leads to an object.\<close>

definition wellFormed :: "store \<Rightarrow> bool" where
  "wellFormed \<sigma> = list_all (\<lambda>c. list_all (\<lambda>x. x < length \<sigma>) (cellChildren c)) \<sigma>"

text \<open>
  Code that runs on the store: it returns the store as it has become, with a value or
  the exception that ended it. What was written before an exception stays written.
\<close>

definition returnS :: "'a \<Rightarrow> 's \<Rightarrow> 's \<times> (error + 'a)" where
  "returnS x s = (s, Inr x)"

definition throwS :: "error \<Rightarrow> 's \<Rightarrow> 's \<times> (error + 'a)" where
  "throwS e s = (s, Inl e)"

definition andThenS ::
  "('s \<Rightarrow> 's \<times> (error + 'a)) \<Rightarrow> ('a \<Rightarrow> 's \<Rightarrow> 's \<times> (error + 'b)) \<Rightarrow> 's \<Rightarrow> 's \<times> (error + 'b)" where
  "andThenS m f s = (case m s of (s', Inl e) \<Rightarrow> (s', Inl e) | (s', Inr x) \<Rightarrow> f x s')"

fun mapS :: "('a \<Rightarrow> 's \<Rightarrow> 's \<times> (error + 'b)) \<Rightarrow> 'a list \<Rightarrow> 's \<Rightarrow> 's \<times> (error + 'b list)" where
  "mapS f [] = returnS []"
| "mapS f (x # xs) = andThenS (f x) (\<lambda>y. andThenS (mapS f xs) (\<lambda>ys. returnS (y # ys)))"

definition forEachS :: "('a \<Rightarrow> 's \<Rightarrow> 's \<times> (error + unit)) \<Rightarrow> 'a list \<Rightarrow> 's \<Rightarrow> 's \<times> (error + unit)" where
  "forEachS f xs = andThenS (mapS f xs) (\<lambda>ys. returnS ())"

text \<open>
  What the synthesizer calls and the sources do not contain: \<open>compile\<close> of
  json-schema-to-typescript (with the fixed \<open>JSTTOptions\<close>; a rejected promise is an
  error), which is handed the reference to the schema and reads the objects it reaches;
  the computation with Node's \<open>path.resolve\<close> and \<open>path.dirname\<close> that turns the position
  of a node and a relative type path into the segments of the absolute one; and the
  depth to which the engine lets calls nest before it throws a \<open>RangeError\<close>, counted in
  calls of the recursive function.
\<close>

record External =
  compile :: "store \<Rightarrow> addr \<Rightarrow> string \<Rightarrow> error + string"
  resolveTypePath :: "pathKey list \<Rightarrow> string \<Rightarrow> string list"
  callStackLimit :: nat

text \<open>\<open>JSON.stringify\<close> of a string of ASCII characters.\<close>

definition hexDigit :: "nat \<Rightarrow> char" where
  "hexDigit d = (if d < 10 then char_of (48 + d) else char_of (87 + d))"

definition jsonEscape :: "char \<Rightarrow> string" where
  "jsonEscape c =
     (if c = CHR 0x22 then [CHR 0x5C, CHR 0x22]
      else if c = CHR 0x5C then [CHR 0x5C, CHR 0x5C]
      else if c = CHR 0x08 then [CHR 0x5C, CHR ''b'']
      else if c = CHR 0x0C then [CHR 0x5C, CHR ''f'']
      else if c = CHR 0x0A then [CHR 0x5C, CHR ''n'']
      else if c = CHR 0x0D then [CHR 0x5C, CHR ''r'']
      else if c = CHR 0x09 then [CHR 0x5C, CHR ''t'']
      else if (of_char c :: nat) < 32
        then [CHR 0x5C, CHR ''u'', CHR ''0'', CHR ''0'', hexDigit (of_char c div 16), hexDigit (of_char c mod 16)]
      else [c])"

definition jsonStringify :: "string \<Rightarrow> string" where
  "jsonStringify s = [CHR 0x22] @ concat (map jsonEscape s) @ [CHR 0x22]"

definition getExtra :: "cell \<Rightarrow> string \<Rightarrow> jsval" where
  "getExtra c k = (case map_of (cextras c) k of None \<Rightarrow> JUndefined | Some v \<Rightarrow> v)"

definition isNullish :: "jsval \<Rightarrow> bool" where
  "isNullish v = (v = JUndefined \<or> v = JNull)"

text \<open>
  \<open>traverseJsonSchema\<close> on the store. A \<open>properties\<close> array is folded into a mapping keyed
  by \<open>js.name\<close> of each element, read from the object the element refers to, and assigned
  to the node. The callback is run on the node; the two callbacks of the code read and
  write the fields of the node they are given and nothing else, so a callback is a
  function on cells. Then the traversal calls itself on what the node's \<open>properties\<close>,
  \<open>items\<close>, \<open>oneOf\<close>, \<open>anyOf\<close> and \<open>allOf\<close> refer to, each field read when its turn comes.
\<close>

definition propertyKeyAt :: "store \<Rightarrow> addr \<Rightarrow> string" where
  "propertyKeyAt \<sigma> js = jsToString (getExtra (cellAt \<sigma> js) ''name'')"

definition repairCell :: "store \<Rightarrow> cell \<Rightarrow> cell" where
  "repairCell \<sigma> jsonSchema =
     (case cproperties jsonSchema of
        Some (PropsArray xs) \<Rightarrow>
          withCellProperties (Some (PropsObject (foldl (\<lambda>props js. setProp (propertyKeyAt \<sigma> js) js props) [] xs))) jsonSchema
      | _ \<Rightarrow> jsonSchema)"

fun propsVisits :: "pathKey list \<Rightarrow> addr props option \<Rightarrow> (pathKey list \<times> addr) list" where
  "propsVisits currentPath None = []"
| "propsVisits currentPath (Some (PropsObject ps)) = map (\<lambda>(key, item). (currentPath @ [Key key], item)) ps"
| "propsVisits currentPath (Some (PropsArray xs)) =
     map (\<lambda>(n, item). (currentPath @ [Key (natToString n)], item)) (enumerate 0 xs)"

fun itemsVisits :: "pathKey list \<Rightarrow> addr OneOrMore option \<Rightarrow> (pathKey list \<times> addr) list" where
  "itemsVisits currentPath None = []"
| "itemsVisits currentPath (Some i) = map (\<lambda>(n, item). (currentPath @ [Index n], item)) (enumerate 0 (castArray i))"

fun listVisits :: "pathKey list \<Rightarrow> addr list option \<Rightarrow> (pathKey list \<times> addr) list" where
  "listVisits currentPath None = []"
| "listVisits currentPath (Some xs) = map (\<lambda>item. (currentPath, item)) xs"

primrec traverseJsonSchemaAt ::
  "nat \<Rightarrow> (pathKey list \<Rightarrow> cell \<Rightarrow> error + cell) \<Rightarrow> pathKey list \<Rightarrow> addr \<Rightarrow> store \<Rightarrow> store \<times> (error + unit)" where
  "traverseJsonSchemaAt 0 cb currentPath jsonSchema = throwS (RangeError ''Maximum call stack size exceeded'')"
| "traverseJsonSchemaAt (Suc depth) cb currentPath jsonSchema =
     (\<lambda>\<sigma>. case objectAt \<sigma> jsonSchema of
        None \<Rightarrow> (\<sigma>, Inr ())
      | Some c \<Rightarrow>
          (let \<sigma>1 = \<sigma>[jsonSchema := repairCell \<sigma> c]
           in case cb currentPath (cellAt \<sigma>1 jsonSchema) of
                Inl e \<Rightarrow> (\<sigma>1, Inl e)
              | Inr c' \<Rightarrow>
                  andThenS (\<lambda>s. forEachS (\<lambda>(childPath, item). traverseJsonSchemaAt depth cb childPath item)
                                  (propsVisits currentPath (cproperties (cellAt s jsonSchema))) s) (\<lambda>u.
                  andThenS (\<lambda>s. forEachS (\<lambda>(childPath, item). traverseJsonSchemaAt depth cb childPath item)
                                  (itemsVisits currentPath (citems (cellAt s jsonSchema))) s) (\<lambda>u.
                  andThenS (\<lambda>s. forEachS (\<lambda>(childPath, item). traverseJsonSchemaAt depth cb childPath item)
                                  (listVisits currentPath (coneOf (cellAt s jsonSchema))) s) (\<lambda>u.
                  andThenS (\<lambda>s. forEachS (\<lambda>(childPath, item). traverseJsonSchemaAt depth cb childPath item)
                                  (listVisits currentPath (canyOf (cellAt s jsonSchema))) s) (\<lambda>u.
                           (\<lambda>s. forEachS (\<lambda>(childPath, item). traverseJsonSchemaAt depth cb childPath item)
                                  (listVisits currentPath (callOf (cellAt s jsonSchema))) s)))))
                    (\<sigma>1[jsonSchema := c'])))"

text \<open>The callback \<open>jsonSchemaToJSTTJsonSchema\<close> hands to the traversal.\<close>

definition jsttCallback :: "External \<Rightarrow> string \<Rightarrow> pathKey list \<Rightarrow> cell \<Rightarrow> error + cell" where
  "jsttCallback ext typeName currentPath jsonSchema =
     (let refValue = (if isNullish (getExtra jsonSchema ''title'')
                      then getExtra jsonSchema ''description'' else getExtra jsonSchema ''title'')
      in andThen
           (if isNullish refValue then Inr (cextras jsonSchema)
            else (case refValue of
                    JStr r \<Rightarrow>
                      if take 1 r = ''&'' then
                        (let typeAbsolutePathArr =
                               filter (\<lambda>s. s \<noteq> []) (resolveTypePath ext currentPath (drop 1 r));
                             tsTypeLeft = concat (map (\<lambda>key. ''NonNullable<'') typeAbsolutePathArr);
                             tsTypeRight = typeName
                               @ concat (map (\<lambda>key. ''['' @ jsonStringify key @ '']>'') typeAbsolutePathArr)
                         in Inr (AList.update ''tsType'' (JStr (tsTypeLeft @ tsTypeRight)) (cextras jsonSchema)))
                      else Inr (cextras jsonSchema)
                  | _ \<Rightarrow> Inl (TypeError ''refValue.startsWith is not a function'')))
           (\<lambda>e. let e1 = AList.delete ''maxItems'' (AList.delete ''minItems''
                             (AList.delete ''id'' (AList.delete ''title'' e)));
                     e2 = (if ctype jsonSchema = Some (One (TName ''object''))
                           then AList.update ''additionalProperties'' (JBool False) e1 else e1);
                     e3 = AList.delete ''default'' e2
                 in Inr (withCellExtras e3 jsonSchema)))"

text \<open>
  \<open>jsonSchemaToJSTTJsonSchema\<close> deletes the outermost \<open>description\<close> and then traverses, all
  in place; it returns the reference it was given.
\<close>

definition jsonSchemaToJSTTJsonSchema :: "External \<Rightarrow> addr \<Rightarrow> string \<Rightarrow> store \<Rightarrow> store \<times> (error + addr)" where
  "jsonSchemaToJSTTJsonSchema ext jsonSchema typeName \<sigma> =
     andThenS (traverseJsonSchemaAt (callStackLimit ext) (jsttCallback ext typeName) [] jsonSchema)
       (\<lambda>u. returnS jsonSchema)
       (case objectAt \<sigma> jsonSchema of
          None \<Rightarrow> \<sigma>
        | Some c \<Rightarrow> \<sigma>[jsonSchema := withCellExtras (AList.delete ''description'' (cextras c)) c])"

text \<open>
  lodash's \<open>cloneDeep\<close> (\<open>baseClone\<close>): a value that is not an object is returned as it
  is; an object that was copied earlier in the same call is represented by that copy,
  which \<open>stack\<close> remembers; otherwise a new object is created and remembered, and receives
  the copies of what the fields of the original refer to.
\<close>

fun cloneProps ::
  "(addr \<Rightarrow> 's \<Rightarrow> 's \<times> (error + addr)) \<Rightarrow> addr props option \<Rightarrow> 's \<Rightarrow> 's \<times> (error + addr props option)" where
  "cloneProps f None = returnS None"
| "cloneProps f (Some (PropsObject ps)) =
     andThenS (mapS (\<lambda>(key, subValue). andThenS (f subValue) (\<lambda>r. returnS (key, r))) ps)
       (\<lambda>ps'. returnS (Some (PropsObject ps')))"
| "cloneProps f (Some (PropsArray xs)) = andThenS (mapS f xs) (\<lambda>xs'. returnS (Some (PropsArray xs')))"

fun cloneItems ::
  "(addr \<Rightarrow> 's \<Rightarrow> 's \<times> (error + addr)) \<Rightarrow> addr OneOrMore option \<Rightarrow> 's \<Rightarrow> 's \<times> (error + addr OneOrMore option)" where
  "cloneItems f None = returnS None"
| "cloneItems f (Some (One subValue)) = andThenS (f subValue) (\<lambda>r. returnS (Some (One r)))"
| "cloneItems f (Some (More xs)) = andThenS (mapS f xs) (\<lambda>xs'. returnS (Some (More xs')))"

fun cloneList ::
  "(addr \<Rightarrow> 's \<Rightarrow> 's \<times> (error + addr)) \<Rightarrow> addr list option \<Rightarrow> 's \<Rightarrow> 's \<times> (error + addr list option)" where
  "cloneList f None = returnS None"
| "cloneList f (Some xs) = andThenS (mapS f xs) (\<lambda>xs'. returnS (Some xs'))"

primrec baseClone ::
  "nat \<Rightarrow> addr \<Rightarrow> (addr \<times> addr) list \<times> store \<Rightarrow> ((addr \<times> addr) list \<times> store) \<times> (error + addr)" where
  "baseClone 0 v = throwS (RangeError ''Maximum call stack size exceeded'')"
| "baseClone (Suc depth) v =
     (\<lambda>(stack, \<sigma>).
        case objectAt \<sigma> v of
          None \<Rightarrow> ((stack, \<sigma>), Inr v)
        | Some c \<Rightarrow>
            (case map_of stack v of
               Some stacked \<Rightarrow> ((stack, \<sigma>), Inr stacked)
             | None \<Rightarrow>
                 (let result = length \<sigma>
                  in andThenS (cloneProps (baseClone depth) (cproperties c)) (\<lambda>p.
                     andThenS (cloneItems (baseClone depth) (citems c)) (\<lambda>i.
                     andThenS (cloneList (baseClone depth) (coneOf c)) (\<lambda>o1.
                     andThenS (cloneList (baseClone depth) (canyOf c)) (\<lambda>a1.
                     andThenS (cloneList (baseClone depth) (callOf c)) (\<lambda>l1 (stack', \<sigma>').
                       ((stack', \<sigma>'[result := Cell (ctype c) p i (crequired c) o1 a1 l1 (cextras c)]),
                        Inr result))))))
                       ((v, result) # stack, \<sigma> @ [emptyCell]))))"

definition cloneDeep :: "External \<Rightarrow> addr \<Rightarrow> store \<Rightarrow> store \<times> (error + addr)" where
  "cloneDeep ext v \<sigma> = (case baseClone (callStackLimit ext) v ([], \<sigma>) of ((stack, \<sigma>'), r) \<Rightarrow> (\<sigma>', r))"

text \<open>
  \<open>String.prototype.replace\<close> with a string pattern: the first occurrence is replaced,
  and in the replacement \<open>$$\<close> stands for a dollar sign, \<open>$&\<close> for the match, \<open>$`\<close> for
  the text before it and \<open>$'\<close> for the text after it.
\<close>

fun findFirst :: "string \<Rightarrow> string \<Rightarrow> (string \<times> string) option" where
  "findFirst pat [] = (if pat = [] then Some ([], []) else None)"
| "findFirst pat (c # cs) =
     (if take (length pat) (c # cs) = pat then Some ([], drop (length pat) (c # cs))
      else map_option (\<lambda>(before, after). (c # before, after)) (findFirst pat cs))"

fun expandReplacement :: "string \<Rightarrow> string \<Rightarrow> string \<Rightarrow> string \<Rightarrow> string" where
  "expandReplacement matched before after [] = []"
| "expandReplacement matched before after [c] = [c]"
| "expandReplacement matched before after (c # d # cs) =
     (if c = CHR ''$'' \<and> d = CHR ''$'' then CHR ''$'' # expandReplacement matched before after cs
      else if c = CHR ''$'' \<and> d = CHR ''&'' then matched @ expandReplacement matched before after cs
      else if c = CHR ''$'' \<and> d = CHR 0x60 then before @ expandReplacement matched before after cs
      else if c = CHR ''$'' \<and> d = CHR 0x27 then after @ expandReplacement matched before after cs
      else c # expandReplacement matched before after (d # cs))"

definition replaceFirst :: "string \<Rightarrow> string \<Rightarrow> string \<Rightarrow> string" where
  "replaceFirst pat replacement s =
     (case findFirst pat s of
        None \<Rightarrow> s
      | Some (before, after) \<Rightarrow> before @ expandReplacement pat before after replacement @ after)"

text \<open>
  lodash's \<open>isEmpty\<close> on a schema: an absent schema, a value that is not an object, and an
  object without own properties.
\<close>

fun isEmpty :: "store \<Rightarrow> addr option \<Rightarrow> bool" where
  "isEmpty \<sigma> None = True"
| "isEmpty \<sigma> (Some a) = (case objectAt \<sigma> a of None \<Rightarrow> True | Some c \<Rightarrow> c = emptyCell)"

definition fakeTypeName :: string where
  "fakeTypeName = ''THISISAFAKETYPENAME''"

text \<open>
  \<open>jsonSchemaToType\<close>. The first component of the result is the store the call leaves;
  the second is what the returned promise settles to.
\<close>

definition jsonSchemaToType :: "External \<Rightarrow> addr option \<Rightarrow> string \<Rightarrow> store \<Rightarrow> store \<times> (error + string)" where
  "jsonSchemaToType ext jsonSchema typeName \<sigma> =
     (if isEmpty \<sigma> jsonSchema then (\<sigma>, Inr (''export interface '' @ typeName @ '' {}''))
      else if truthy (getExtra (cellAt \<sigma> (the jsonSchema)) ''__is_any__'')
      then (\<sigma>[the jsonSchema := withCellExtras (AList.delete ''__is_any__'' (cextras (cellAt \<sigma> (the jsonSchema))))
                                   (cellAt \<sigma> (the jsonSchema))],
            Inr (''export type '' @ typeName @ '' = any''))
      else andThenS (cloneDeep ext (the jsonSchema)) (\<lambda>clone.
           andThenS (jsonSchemaToJSTTJsonSchema ext clone typeName) (\<lambda>jstt \<sigma>'.
             (\<sigma>', andThen (compile ext \<sigma>' jstt fakeTypeName)
                     (\<lambda>code. Inr (trim (replaceFirst fakeTypeName typeName code)))))) \<sigma>)"

text \<open>
  What the call may do to the objects that were there before it. \<open>keeps\<close> says that a
  store still holds every object of an earlier store unchanged, and that the objects
  added since refer only to objects added since.
\<close>

definition freshFrom :: "nat \<Rightarrow> store \<Rightarrow> bool" where
  "freshFrom n \<sigma> = (\<forall>i. n \<le> i \<and> i < length \<sigma> \<longrightarrow> (\<forall>x \<in> set (cellChildren (\<sigma> ! i)). n \<le> x))"

definition keeps :: "store \<Rightarrow> store \<Rightarrow> bool" where
  "keeps \<sigma>0 \<sigma> = (length \<sigma>0 \<le> length \<sigma> \<and> take (length \<sigma>0) \<sigma> = \<sigma>0 \<and> freshFrom (length \<sigma>0) \<sigma>)"

definition preserves :: "('s \<Rightarrow> bool) \<Rightarrow> ('s \<Rightarrow> 's \<times> (error + 'a)) \<Rightarrow> ('a \<Rightarrow> bool) \<Rightarrow> bool" where
  "preserves I m Q = (\<forall>s s' r. I s \<and> m s = (s', r) \<longrightarrow> I s' \<and> (\<forall>y. r = Inr y \<longrightarrow> Q y))"

section \<open>Interfaces and the request schema: \<open>getRequestDataJsonSchema\<close> (utils.ts)\<close>

text \<open>
  The declarations of \<open>./types\<close> are not among the sources. The records below list the
  fields of an interface that the functions read; \<open>Method\<close>, \<open>RequestBodyType\<close>,
  \<open>RequestFormItemType\<close> and \<open>Required\<close> are the enumerations the code compares against.
  The HTTP method is a string-valued enumeration (the name functions lowercase it).
\<close>

datatype Required = RequiredFalse | RequiredTrue

datatype RequestFormItemType = FormItemText | FormItemFile

datatype RequestBodyType = BodyForm | BodyJson | BodyOther string

record FormItem =
  form_name :: string
  form_type :: RequestFormItemType
  form_required :: Required
  form_desc :: "string option"

record ParamItem =
  param_name :: string
  param_required :: Required
  param_type :: "string option"
  param_desc :: "string option"
  param_schema :: "schema option"

record Interface =
  method' :: string
  path :: string
  req_body_type :: RequestBodyType
  req_body_form :: "FormItem list"
  req_body_other :: string
  req_body_is_json_schema :: bool
  req_query :: "ParamItem list"
  req_params :: "ParamItem list"






















section \<open>The identifier generator: \<open>getRequestFunctionName\<close> and its siblings (utils.ts)\<close>

text \<open>
  The name functions take the case transforms as their \<open>changeCase\<close> argument (the
  change-case package); they call its \<open>pascalCase\<close>.
\<close>

record ChangeCase =
  pascalCase :: "string \<Rightarrow> string"

text \<open>\<open>path.replace(/^\/+/, "")\<close> and \<open>.replace(/^api\/+/, "")\<close>.\<close>

definition stripLeadingSlashes :: "string \<Rightarrow> string" where
  "stripLeadingSlashes s = dropWhile (\<lambda>c. c = CHR ''/'') s"

definition stripApiPrefix :: "string \<Rightarrow> string" where
  "stripApiPrefix s =
     (if take 4 s = ''api/'' then dropWhile (\<lambda>c. c = CHR ''/'') (drop 3 s) else s)"

text \<open>
  \<open>path.replace(/\{([^}]+)\}/g, (_, param) => ...)\<close>: at an opening brace the pattern
  matches when at least one character other than a closing brace follows and a closing
  brace ends that run; the scan goes on behind the match.
\<close>

definition matchParam :: "string \<Rightarrow> (string \<times> string) option" where
  "matchParam cs =
     (let param = takeWhile (\<lambda>c. c \<noteq> CHR ''}'') cs;
          rest = dropWhile (\<lambda>c. c \<noteq> CHR ''}'') cs
      in if param \<noteq> [] \<and> rest \<noteq> [] then Some (param, tl rest) else None)"

lemma matchParam_shorter: "matchParam cs = Some (p, r) \<Longrightarrow> length r < length cs"
proof -
  assume "matchParam cs = Some (p, r)"
  then have r: "r = tl (dropWhile (\<lambda>c. c \<noteq> CHR ''}'') cs)"
    and ne: "dropWhile (\<lambda>c. c \<noteq> CHR ''}'') cs \<noteq> []"
    by (auto simp: matchParam_def Let_def split: if_splits)
  have "length (dropWhile (\<lambda>c. c \<noteq> CHR ''}'') cs) \<le> length cs"
    by (rule length_dropWhile_le)
  moreover have "length r < length (dropWhile (\<lambda>c. c \<noteq> CHR ''}'') cs)"
    using ne unfolding r by (cases "dropWhile (\<lambda>c. c \<noteq> CHR ''}'') cs") auto
  ultimately show ?thesis by simp
qed

function replaceParams :: "(string \<Rightarrow> string) \<Rightarrow> string \<Rightarrow> string" where
  "replaceParams f [] = []"
| "replaceParams f (c # cs) =
     (if c = CHR ''{'' then
        (case matchParam cs of
           Some (param, rest) \<Rightarrow> f param @ replaceParams f rest
         | None \<Rightarrow> c # replaceParams f cs)
      else c # replaceParams f cs)"
  by pat_completeness auto
termination
  by (relation "measure (\<lambda>(f, s). length s)") (auto dest: matchParam_shorter)

text \<open>\<open>String.prototype.split\<close> on a one-character separator.\<close>

fun splitOn :: "char \<Rightarrow> string \<Rightarrow> string list" where
  "splitOn d [] = [[]]"
| "splitOn d (c # cs) =
     (if c = d then [] # splitOn d cs
      else (case splitOn d cs of s # ss \<Rightarrow> (c # s) # ss | [] \<Rightarrow> [[c]]))"

definition byParam :: "ChangeCase \<Rightarrow> string \<Rightarrow> string" where
  "byParam changeCase param = ''By'' @ pascalCase changeCase param"

definition pathPartOf :: "ChangeCase \<Rightarrow> string \<Rightarrow> string" where
  "pathPartOf changeCase p =
     (let p1 = stripApiPrefix (stripLeadingSlashes p);
          p2 = replaceParams (byParam changeCase) p1;
          pathSegments = filter (\<lambda>s. s \<noteq> []) (splitOn CHR ''/'' p2)
      in concat (map (pascalCase changeCase) pathSegments))"

definition methodOrGet :: "string \<Rightarrow> string" where
  "methodOrGet m = (if m = [] then ''get'' else m)"

definition getRequestFunctionName :: "'a Interface_scheme \<Rightarrow> ChangeCase \<Rightarrow> string" where
  "getRequestFunctionName interfaceInfo changeCase =
     (let methodPrefix = toLowerCase (methodOrGet (method' interfaceInfo))
      in methodPrefix @ pathPartOf changeCase (path interfaceInfo) @ ''Api'')"

definition getRequestDataTypeName :: "'a Interface_scheme \<Rightarrow> ChangeCase \<Rightarrow> string" where
  "getRequestDataTypeName interfaceInfo changeCase =
     (let methodPrefix = pascalCase changeCase (toLowerCase (methodOrGet (method' interfaceInfo)))
      in methodPrefix @ pathPartOf changeCase (path interfaceInfo) @ ''RequestType'')"

definition getReponseDataTypeName :: "'a Interface_scheme \<Rightarrow> ChangeCase \<Rightarrow> string" where
  "getReponseDataTypeName interfaceInfo changeCase =
     (let methodPrefix = pascalCase changeCase (toLowerCase (methodOrGet (method' interfaceInfo)))
      in methodPrefix @ pathPartOf changeCase (path interfaceInfo) @ ''ResponseType'')"

text \<open>
  A case transform to run the name functions with: it keeps the letters and digits of a
  word and capitalizes the first.
\<close>

definition upperChar :: "char \<Rightarrow> char" where
  "upperChar c = (if CHR ''a'' \<le> c \<and> c \<le> CHR ''z'' then char_of (of_char c - (32::nat)) else c)"

definition isAlnum :: "char \<Rightarrow> bool" where
  "isAlnum c = ((CHR ''a'' \<le> c \<and> c \<le> CHR ''z'') \<or> (CHR ''A'' \<le> c \<and> c \<le> CHR ''Z'') \<or> (CHR ''0'' \<le> c \<and> c \<le> CHR ''9''))"

definition capitalizeWord :: "string \<Rightarrow> string" where
  "capitalizeWord s = (case filter isAlnum s of [] \<Rightarrow> [] | c # cs \<Rightarrow> upperChar c # cs)"


text \<open>
  The algorithm as the specification words it, on a path given as its segments: a
  segment is a sequence of literal pieces and \<open>{param}\<close> placeholders.
\<close>

datatype piece = Lit string | Param string

fun pieceText :: "piece \<Rightarrow> string" where
  "pieceText (Lit s) = s"
| "pieceText (Param p) = ''{'' @ p @ ''}''"

definition segmentText :: "piece list \<Rightarrow> string" where
  "segmentText seg = concat (map pieceText seg)"

definition renderPath :: "piece list list \<Rightarrow> string" where
  "renderPath segs = concat (map (\<lambda>seg. CHR ''/'' # segmentText seg) segs)"

fun pieceName :: "ChangeCase \<Rightarrow> piece \<Rightarrow> string" where
  "pieceName changeCase (Lit s) = s"
| "pieceName changeCase (Param p) = byParam changeCase p"

definition segmentName :: "ChangeCase \<Rightarrow> piece list \<Rightarrow> string" where
  "segmentName changeCase seg = pascalCase changeCase (concat (map (pieceName changeCase) seg))"

definition withoutApiSegment :: "piece list list \<Rightarrow> piece list list" where
  "withoutApiSegment segs =
     (case dropWhile (\<lambda>seg. segmentText seg = []) segs of
        [] \<Rightarrow> []
      | a # rest \<Rightarrow> if segmentText a = ''api'' \<and> rest \<noteq> [] then rest else a # rest)"

definition specPathPart :: "ChangeCase \<Rightarrow> piece list list \<Rightarrow> string" where
  "specPathPart changeCase segs =
     concat (map (segmentName changeCase)
       (filter (\<lambda>seg. segmentText seg \<noteq> []) (withoutApiSegment segs)))"

fun wfPiece :: "ChangeCase \<Rightarrow> piece \<Rightarrow> bool" where
  "wfPiece changeCase (Lit s) = (CHR ''/'' \<notin> set s \<and> CHR ''{'' \<notin> set s)"
| "wfPiece changeCase (Param p) =
     (p \<noteq> [] \<and> CHR ''}'' \<notin> set p \<and> CHR ''/'' \<notin> set (pascalCase changeCase p))"

definition wfPath :: "ChangeCase \<Rightarrow> piece list list \<Rightarrow> bool" where
  "wfPath changeCase segs = list_all (list_all (wfPiece changeCase)) segs"

definition replacedText :: "ChangeCase \<Rightarrow> piece list \<Rightarrow> string" where
  "replacedText changeCase seg = concat (map (pieceName changeCase) seg)"

definition afterSlashes :: "piece list list \<Rightarrow> string" where
  "afterSlashes segs =
     (case dropWhile (\<lambda>seg. segmentText seg = []) segs of
        [] \<Rightarrow> []
      | a # rest \<Rightarrow> segmentText a @ renderPath rest)"

text \<open>An interface with a given method and path, without a body and without parameters.\<close>

definition plainInterface :: "string \<Rightarrow> string \<Rightarrow> Interface" where
  "plainInterface m p =
     \<lparr>method' = m, path = p, req_body_type = BodyOther ''none'', req_body_form = [],
      req_body_other = [], req_body_is_json_schema = False, req_query = [], req_params = []\<rparr>"

section \<open>What one pass of \<open>processJsonSchema\<close> leaves\<close>

text \<open>
  A property name that the trimming loop leaves alone: it has no whitespace at either
  end, and it is not \<open>__proto__\<close>, which cannot be assigned as an own property.
\<close>

definition trimmedKey :: "string \<Rightarrow> bool" where
  "trimmedKey k = (trim k = k \<and> k \<noteq> ''__proto__'')"

text \<open>
  The invariant of the loop: the entries whose key is not among the keys still to be
  processed have distinct, trimmed keys.
\<close>

definition trimInv :: "(string \<times> 'a) list \<Rightarrow> string list \<Rightarrow> bool" where
  "trimInv ps ks =
     (distinct (map fst (filter (\<lambda>e. fst e \<notin> set ks) ps))
      \<and> (\<forall>e \<in> set ps. fst e \<notin> set ks \<longrightarrow> trimmedKey (fst e)))"

text \<open>The schemas directly below a \<open>properties\<close>, an \<open>items\<close> and a \<open>oneOf\<close>/\<open>anyOf\<close>/\<open>allOf\<close> value.\<close>

definition propsValuesOpt :: "schema props option \<Rightarrow> schema set" where
  "propsValuesOpt p = (case p of None \<Rightarrow> {} | Some q \<Rightarrow> set_props q)"

definition itemsValuesOpt :: "schema OneOrMore option \<Rightarrow> schema set" where
  "itemsValuesOpt i = (case i of None \<Rightarrow> {} | Some q \<Rightarrow> set_OneOrMore q)"

definition listValuesOpt :: "schema list option \<Rightarrow> schema set" where
  "listValuesOpt l = (case l of None \<Rightarrow> {} | Some xs \<Rightarrow> set xs)"

text \<open>
  A node on which the callback of \<open>processJsonSchema\<close> has nothing left to do: its type
  names are fixed by the table, its \<open>properties\<close> is a mapping with distinct trimmed names
  and its \<open>required\<close> is trimmed, it has no \<open>$ref\<close> and no \<open>$$ref\<close>, and it is not an
  \<open>array\<close> with a non-empty tuple as \<open>items\<close>.
\<close>

definition settledNode :: "(string \<times> JSONSchema4TypeName) list \<Rightarrow> schema \<Rightarrow> bool" where
  "settledNode customTypeMapping js =
     ((if typeIsTruthy (stype js)
       then normalizeTypes (typeMapping customTypeMapping) (the (stype js)) = Inr (the (stype js))
       else True)
      \<and> (case properties js of
            None \<Rightarrow> True
          | Some (PropsArray xs) \<Rightarrow> False
          | Some (PropsObject qs) \<Rightarrow>
              distinct (map fst qs) \<and> list_all trimmedKey (map fst qs)
              \<and> trimRequired (required js) = required js)
      \<and> AList.delete ''$$ref'' (AList.delete ''$ref'' (extras js)) = extras js
      \<and> (case (stype js, items js) of
            (Some (One (TName t)), Some (More (x # xs))) \<Rightarrow> t \<noteq> ''array''
          | _ \<Rightarrow> True))"

section \<open>Properties of the category resolution\<close>

lemma set_uniq [simp]: "set (uniq xs) = set xs"
  by (induction xs rule: uniq.induct) auto

lemma distinct_uniq [simp]: "distinct (uniq xs)"
  by (induction xs rule: uniq.induct) auto

lemma find_None_iff_cat: "(find (\<lambda>c. cat_id c = i) cats \<noteq> None) = (i \<in> cat_id ` set cats)"
  unfolding find_None_iff by auto

lemma set_resolveCategoryIds:
  "set (resolveCategoryIds configId cats) =
     {i \<in> set (expandedIds configId cats).
        i \<in> cat_id ` set cats \<and> (\<forall>e \<in> set (expandedIds configId cats). e < 0 \<longrightarrow> abs i \<noteq> abs e)}"
  unfolding resolveCategoryIds_def expandedIds_def defaultSort_def Let_def find_None_iff_cat
  by auto

lemma distinct_resolveCategoryIds: "distinct (resolveCategoryIds configId cats)"
  by (simp add: resolveCategoryIds_def defaultSort_def Let_def)

lemma resolveCategoryIds_nonneg: "i \<in> set (resolveCategoryIds configId cats) \<Longrightarrow> 0 \<le> i"
  unfolding set_resolveCategoryIds by force

lemma resolveCategoryIds_sorted_as_strings:
  "sorted (map numberToString (resolveCategoryIds configId cats))"
  by (simp add: resolveCategoryIds_def defaultSort_def Let_def)

text \<open>
  Claim C1. The resolved category ids are the configured ids with 0 expanded to every
  category of the project, exclusions removed, unknown ids dropped and duplicates
  collapsed, and the list is sorted ascending numerically. The last part fails: the list
  is sorted with \<open>sort()\<close> and no comparison function, that is by the decimal strings.
  With the id 0 configured and a project whose categories have the ids 2 and 10, the
  code resolves to 10 before 2.
\<close>

theorem resolveCategoryIds_string_order:
  "resolveCategoryIds (One 0) [\<lparr>cat_id = 2, cat_name = ''a''\<rparr>, \<lparr>cat_id = 10, cat_name = ''b''\<rparr>] = [10, 2]"
  by code_simp

section \<open>Properties of \<open>sortByWeights\<close>\<close>

lemma foldl_nonzero: "w \<noteq> 0 \<Longrightarrow> foldl (\<lambda>w i. if w = 0 then f i else w) w is = (w::int)"
  by (induction "is") auto

lemma foldl_idx_firstDiff:
  "length u = length v \<Longrightarrow>
   foldl (\<lambda>w i. if w = 0 then u ! i - v ! i else w) 0 [0..<length u] = firstDiff u v"
proof (induction u v rule: list_induct2')
  case (4 x xs y ys)
  have upt: "[0..<length (x # xs)] = 0 # map Suc [0..<length xs]"
    by (simp add: upt_conv_Cons map_Suc_upt del: upt_Suc)
  show ?case
  proof (cases "x = y")
    case True
    with 4 show ?thesis unfolding upt by (simp add: foldl_map cong: if_cong)
  next
    case False
    then show ?thesis unfolding upt by (simp add: foldl_nonzero)
  qed
qed auto

lemma firstDiff_less: "length u = length v \<Longrightarrow> (firstDiff u v < 0) = (u < v)"
  by (induction u v rule: list_induct2') auto

lemma firstDiff_eq: "length u = length v \<Longrightarrow> (firstDiff u v = 0) = (u = v)"
  by (induction u v rule: list_induct2') auto

lemma lexLess_less: "length u = length v \<Longrightarrow> lexLess u v = (u < v)"
  by (induction u v rule: list_induct2') auto


lemma zeroPad_length [simp]: "length (zeroPad n u) = max n (length u)"
  by (simp add: zeroPad_def)

lemma append_zeros_less:
  "length u = length v \<Longrightarrow> (u @ replicate k 0 < v @ replicate k (0::int)) = (u < v)"
  by (induction u v rule: list_induct2') auto

lemma zeroPad_mono_less:
  assumes "length u \<le> n" "length v \<le> n" "n \<le> m"
  shows "(zeroPad m u < zeroPad m v) = (zeroPad n u < zeroPad n v)"
proof -
  have "zeroPad m u = zeroPad n u @ replicate (m - n) 0" "zeroPad m v = zeroPad n v @ replicate (m - n) 0"
    using assms by (simp_all add: zeroPad_def replicate_add [symmetric])
  then show ?thesis using assms by (simp add: append_zeros_less)
qed

lemma paddedLess_zeroPad:
  assumes "length u \<le> n" "length v \<le> n"
  shows "paddedLess u v = (zeroPad n u < zeroPad n v)"
  using zeroPad_mono_less[of u "max (length u) (length v)" v n] assms
  by (simp add: paddedLess_def Let_def lexLess_less)


lemma dropTrailingZeros_append_zeros [simp]:
  "dropTrailingZeros (u @ replicate k 0) = dropTrailingZeros u"
proof (induction u)
  case Nil
  show ?case by (induction k) (auto simp: Let_def)
qed (auto simp: Let_def)

lemma zeroPad_append_zeros:
  "length u + k \<le> n \<Longrightarrow> zeroPad n (u @ replicate k 0) = zeroPad n u"
  by (simp add: zeroPad_def replicate_add [symmetric])

lemma zeroPad_exact: "length u = n \<Longrightarrow> zeroPad n u = u"
  by (simp add: zeroPad_def)

lemma compareWeights_props:
  assumes "compareWeights a b = (w, a', b')"
    and "length (weights a) \<le> n" "length (weights b) \<le> n"
  shows "length (weights a') \<le> n" "length (weights b') \<le> n"
    and "zeroPad n (weights a') = zeroPad n (weights a)"
    and "zeroPad n (weights b') = zeroPad n (weights b)"
    and "normalizeWeights a' = normalizeWeights a"
    and "normalizeWeights b' = normalizeWeights b"
    and "(w \<le> 0) = (zeroPad n (weights a) \<le> zeroPad n (weights b))"
proof -
  let ?m = "max (length (weights a)) (length (weights b))"
  from assms(1) have a': "a' = (if length (weights a) > length (weights b) then a
      else a\<lparr>weights := weights a @ replicate (?m - min (length (weights a)) (length (weights b))) 0\<rparr>)"
    and b': "b' = (if length (weights a) > length (weights b)
      then b\<lparr>weights := weights b @ replicate (?m - min (length (weights a)) (length (weights b))) 0\<rparr> else b)"
    and w: "w = foldl (\<lambda>w i. if w = 0 then weights a' ! i - weights b' ! i else w) 0 [0..<length (weights a')]"
    by (auto simp: compareWeights_def Let_def)
  have la: "length (weights a') = ?m" and lb: "length (weights b') = ?m"
    by (auto simp: a' b')
  show "length (weights a') \<le> n" "length (weights b') \<le> n"
    using assms(2,3) la lb by auto
  show za: "zeroPad n (weights a') = zeroPad n (weights a)"
    using assms(2,3) by (auto simp: a' zeroPad_append_zeros)
  show zb: "zeroPad n (weights b') = zeroPad n (weights b)"
    using assms(2,3) by (auto simp: b' zeroPad_append_zeros)
  show "normalizeWeights a' = normalizeWeights a" "normalizeWeights b' = normalizeWeights b"
    by (auto simp: a' b' normalizeWeights_def)
  have eq: "length (weights a') = length (weights b')" using la lb by simp
  have "w = firstDiff (weights a') (weights b')"
    unfolding w using foldl_idx_firstDiff[OF eq] .
  then have "(w \<le> 0) = (weights a' \<le> weights b')"
    using firstDiff_less[OF eq] firstDiff_eq[OF eq] by (auto simp: le_less)
  also have "\<dots> = (zeroPad ?m (weights a') \<le> zeroPad ?m (weights b'))"
    using la lb by (simp add: zeroPad_exact)
  also have "\<dots> = (zeroPad n (weights a') \<le> zeroPad n (weights b'))"
    using zeroPad_mono_less[of "weights b'" ?m "weights a'" n] la lb assms(2,3)
    by (auto simp: not_less [symmetric])
  finally show "(w \<le> 0) = (zeroPad n (weights a) \<le> zeroPad n (weights b))"
    by (simp add: za zb)
qed

lemma insertByWeights_props:
  assumes "length (weights a) \<le> n" "\<forall>b \<in> set bs. length (weights b) \<le> n"
  shows "map (\<lambda>x. zeroPad n (weights x)) (insertByWeights a bs)
           = insort (zeroPad n (weights a)) (map (\<lambda>x. zeroPad n (weights x)) bs)
         \<and> (\<forall>b \<in> set (insertByWeights a bs). length (weights b) \<le> n)
         \<and> mset (map normalizeWeights (insertByWeights a bs))
             = add_mset (normalizeWeights a) (mset (map normalizeWeights bs))"
  using assms
proof (induction bs arbitrary: a)
  case Nil
  then show ?case by simp
next
  case (Cons b bs)
  obtain w a' b' where c: "compareWeights a b = (w, a', b')"
    by (cases "compareWeights a b") auto
  have lb: "length (weights b) \<le> n" using Cons.prems by simp
  note p = compareWeights_props[OF c Cons.prems(1) lb]
  have ih: "map (\<lambda>x. zeroPad n (weights x)) (insertByWeights a' bs)
           = insort (zeroPad n (weights a')) (map (\<lambda>x. zeroPad n (weights x)) bs)
         \<and> (\<forall>b \<in> set (insertByWeights a' bs). length (weights b) \<le> n)
         \<and> mset (map normalizeWeights (insertByWeights a' bs))
             = add_mset (normalizeWeights a') (mset (map normalizeWeights bs))"
    using Cons.IH[of a'] p(1) Cons.prems(2) by simp
  show ?case
  proof (cases "w \<le> 0")
    case True
    then show ?thesis using c p Cons.prems by simp
  next
    case False
    then show ?thesis using c p ih Cons.prems by simp
  qed
qed

lemma sortByWeights_props:
  assumes "\<forall>b \<in> set list. length (weights b) \<le> n"
  shows "map (\<lambda>x. zeroPad n (weights x)) (sortByWeights list) = sort (map (\<lambda>x. zeroPad n (weights x)) list)
         \<and> (\<forall>b \<in> set (sortByWeights list). length (weights b) \<le> n)
         \<and> mset (map normalizeWeights (sortByWeights list)) = mset (map normalizeWeights list)"
  using assms
proof (induction list)
  case Nil
  then show ?case by (simp add: sortByWeights_def)
next
  case (Cons a list)
  then have ih: "map (\<lambda>x. zeroPad n (weights x)) (sortByWeights list) = sort (map (\<lambda>x. zeroPad n (weights x)) list)"
    "\<forall>b \<in> set (sortByWeights list). length (weights b) \<le> n"
    "mset (map normalizeWeights (sortByWeights list)) = mset (map normalizeWeights list)"
    by simp_all
  have la: "length (weights a) \<le> n" using Cons.prems by simp
  have s: "sortByWeights (a # list) = insertByWeights a (sortByWeights list)"
    by (simp add: sortByWeights_def)
  show ?case unfolding s
    using insertByWeights_props[OF la ih(2)] ih by (simp add: sort_key_def)
qed

lemma lengths_bounded: "\<forall>b \<in> set list. length (weights b) \<le> Max (insert 0 (set (map (length \<circ> weights) list)))"
  by (auto intro: Max_ge)

text \<open>
  Claim C2. \<open>sortByWeights\<close> orders any list by the lexicographic comparison of the
  zero-padded weight vectors: in the result no item is followed by an item whose padded
  vector is smaller, and the result holds the items of the input (their vectors up to
  the zeros pushed onto them). Fragments with the weights [0,0,0,1] and [0,0,0,2] come
  out in this order from either input order.
\<close>

theorem sortByWeights_ordered:
  "sorted_wrt (\<lambda>a b. \<not> paddedLess (weights b) (weights a)) (sortByWeights list)
   \<and> mset (map normalizeWeights (sortByWeights list)) = mset (map normalizeWeights list)
   \<and> map weights (sortByWeights [\<lparr>weights = [0, 0, 0, 1]\<rparr>, \<lparr>weights = [0, 0, 0, 2]\<rparr>]) = [[0, 0, 0, 1], [0, 0, 0, 2]]
   \<and> map weights (sortByWeights [\<lparr>weights = [0, 0, 0, 2]\<rparr>, \<lparr>weights = [0, 0, 0, 1]\<rparr>]) = [[0, 0, 0, 1], [0, 0, 0, 2]]"
proof -
  define n where "n = Max (insert 0 (set (map (length \<circ> weights) list)))"
  have b: "\<forall>b \<in> set list. length (weights b) \<le> n"
    unfolding n_def by (rule lengths_bounded)
  note p = sortByWeights_props[OF b]
  have "sorted (map (\<lambda>x. zeroPad n (weights x)) (sortByWeights list))"
    using p by simp
  then have "sorted_wrt (\<lambda>a b. zeroPad n (weights a) \<le> zeroPad n (weights b)) (sortByWeights list)"
    by (simp add: sorted_map)
  then have 1: "sorted_wrt (\<lambda>a b. \<not> paddedLess (weights b) (weights a)) (sortByWeights list)"
  proof (rule sorted_wrt_mono_rel [rotated])
    fix x y
    assume "x \<in> set (sortByWeights list)" "y \<in> set (sortByWeights list)"
      and le: "zeroPad n (weights x) \<le> zeroPad n (weights y)"
    then have "length (weights x) \<le> n" "length (weights y) \<le> n" using p by auto
    then show "\<not> paddedLess (weights y) (weights x)"
      using le by (simp add: paddedLess_zeroPad not_less)
  qed
  have 3: "map weights (sortByWeights [\<lparr>weights = [0, 0, 0, 1]\<rparr>, \<lparr>weights = [0, 0, 0, 2]\<rparr>]) = [[0, 0, 0, 1], [0, 0, 0, 2]]"
    by code_simp
  have 4: "map weights (sortByWeights [\<lparr>weights = [0, 0, 0, 2]\<rparr>, \<lparr>weights = [0, 0, 0, 1]\<rparr>]) = [[0, 0, 0, 1], [0, 0, 0, 2]]"
    by code_simp
  show ?thesis using 1 p 3 4 by simp
qed

section \<open>Properties of the identifier generator\<close>

lemma splitOn_no_delim: "d \<notin> set s \<Longrightarrow> splitOn d s = [s]"
  by (induction s) auto

lemma splitOn_append_delim: "d \<notin> set s \<Longrightarrow> splitOn d (s @ d # r) = s # splitOn d r"
  by (induction s) auto

lemma splitOn_joined:
  "d \<notin> set t \<Longrightarrow> \<forall>u \<in> set ts. d \<notin> set u \<Longrightarrow>
   splitOn d (t @ concat (map (\<lambda>u. d # u) ts)) = t # ts"
  by (induction ts arbitrary: t) (auto simp: splitOn_no_delim splitOn_append_delim)

lemma replaceParams_no_brace:
  "CHR ''{'' \<notin> set s \<Longrightarrow> replaceParams f (s @ r) = s @ replaceParams f r"
  by (induction s) auto

lemma matchParam_closed:
  assumes "p \<noteq> []" "CHR ''}'' \<notin> set p"
  shows "matchParam (p @ CHR ''}'' # r) = Some (p, r)"
proof -
  have all: "\<And>x. x \<in> set p \<Longrightarrow> x \<noteq> CHR ''}''" using assms(2) by auto
  have "takeWhile (\<lambda>c. c \<noteq> CHR ''}'') (p @ CHR ''}'' # r) = p"
    using all by (simp add: takeWhile_append2)
  moreover have "dropWhile (\<lambda>c. c \<noteq> CHR ''}'') (p @ CHR ''}'' # r) = CHR ''}'' # r"
    using all by (simp add: dropWhile_append2)
  ultimately show ?thesis using assms(1) by (simp add: matchParam_def Let_def)
qed

lemma replaceParams_param:
  "p \<noteq> [] \<Longrightarrow> CHR ''}'' \<notin> set p \<Longrightarrow>
   replaceParams f (CHR ''{'' # p @ CHR ''}'' # r) = f p @ replaceParams f r"
  by (simp add: matchParam_closed)

lemma replaceParams_piece:
  "wfPiece changeCase x \<Longrightarrow>
   replaceParams (byParam changeCase) (pieceText x @ r)
     = pieceName changeCase x @ replaceParams (byParam changeCase) r"
  by (cases x) (simp_all add: replaceParams_no_brace replaceParams_param del: replaceParams.simps)

lemma replaceParams_segment:
  "list_all (wfPiece changeCase) seg \<Longrightarrow>
   replaceParams (byParam changeCase) (segmentText seg @ r)
     = replacedText changeCase seg @ replaceParams (byParam changeCase) r"
  by (induction seg) (simp_all add: segmentText_def replacedText_def replaceParams_piece del: replaceParams.simps)

lemma replaceParams_path:
  "wfPath changeCase segs \<Longrightarrow>
   replaceParams (byParam changeCase) (renderPath segs)
     = concat (map (\<lambda>seg. CHR ''/'' # replacedText changeCase seg) segs)"
  by (induction segs) (simp_all add: renderPath_def wfPath_def replaceParams_segment)

lemma pieceName_no_slash: "wfPiece changeCase x \<Longrightarrow> CHR ''/'' \<notin> set (pieceName changeCase x)"
  by (cases x) (auto simp: byParam_def)

lemma replacedText_no_slash:
  "list_all (wfPiece changeCase) seg \<Longrightarrow> CHR ''/'' \<notin> set (replacedText changeCase seg)"
  by (induction seg) (auto simp: replacedText_def pieceName_no_slash)

lemma replacedText_empty_iff:
  "(replacedText changeCase seg = []) = (segmentText seg = [])"
proof (induction seg)
  case (Cons x seg)
  then show ?case by (cases x) (auto simp: replacedText_def segmentText_def byParam_def)
qed (simp add: replacedText_def segmentText_def)

lemma segmentText_slash_after_brace:
  "list_all (wfPiece changeCase) seg \<Longrightarrow> segmentText seg = u @ CHR ''/'' # v \<Longrightarrow> CHR ''{'' \<in> set u"
proof (induction seg arbitrary: u)
  case Nil
  then show ?case by (simp add: segmentText_def)
next
  case (Cons x seg)
  have st: "segmentText (x # seg) = pieceText x @ segmentText seg"
    by (simp add: segmentText_def)
  from Cons.prems(2) have eq: "pieceText x @ segmentText seg = u @ CHR ''/'' # v"
    by (simp add: st)
  show ?case
  proof (cases x)
    case (Lit l)
    with Cons.prems(1) have nl: "CHR ''/'' \<notin> set l" by simp
    from eq Lit have "l @ segmentText seg = u @ CHR ''/'' # v" by simp
    then obtain w where "u = l @ w" "segmentText seg = w @ CHR ''/'' # v"
      using nl by (auto simp: append_eq_append_conv2 append_eq_Cons_conv Cons_eq_append_conv)
    then show ?thesis using Cons.IH[of w] Cons.prems(1) by auto
  next
    case (Param p)
    with eq have "CHR ''{'' # p @ CHR ''}'' # segmentText seg = u @ CHR ''/'' # v" by simp
    then show ?thesis by (cases u) auto
  qed
qed

lemma segmentText_keeps_slashes:
  assumes "list_all (wfPiece changeCase) seg" "segmentText seg \<noteq> []"
  shows "stripLeadingSlashes (segmentText seg @ r) = segmentText seg @ r"
proof -
  obtain c cs where t: "segmentText seg = c # cs"
    using assms(2) by (cases "segmentText seg") auto
  have "c \<noteq> CHR ''/''"
    using segmentText_slash_after_brace[OF assms(1), of "[]" cs] t by auto
  then show ?thesis by (simp add: t stripLeadingSlashes_def)
qed

lemma renderPath_Cons: "renderPath (seg # segs) = CHR ''/'' # segmentText seg @ renderPath segs"
  by (simp add: renderPath_def)

lemma stripLeadingSlashes_render:
  "wfPath changeCase segs \<Longrightarrow> stripLeadingSlashes (renderPath segs) = afterSlashes segs"
proof (induction segs)
  case Nil
  then show ?case by (simp add: renderPath_def afterSlashes_def stripLeadingSlashes_def)
next
  case (Cons seg segs)
  then have wf: "list_all (wfPiece changeCase) seg" and wfs: "wfPath changeCase segs"
    by (simp_all add: wfPath_def)
  have drop: "stripLeadingSlashes (renderPath (seg # segs)) = stripLeadingSlashes (segmentText seg @ renderPath segs)"
    by (simp add: renderPath_Cons stripLeadingSlashes_def)
  show ?case
  proof (cases "segmentText seg = []")
    case True
    then show ?thesis using Cons.IH[OF wfs] drop by (simp add: afterSlashes_def)
  next
    case False
    then show ?thesis using segmentText_keeps_slashes[OF wf False] drop by (simp add: afterSlashes_def)
  qed
qed

lemma stripApiPrefix_api:
  assumes "segmentText a = ''api''" "rest \<noteq> []"
  shows "stripApiPrefix (segmentText a @ renderPath rest) = stripLeadingSlashes (renderPath rest)"
proof -
  obtain b rest' where r: "rest = b # rest'" using assms(2) by (cases rest) auto
  show ?thesis
    by (simp add: assms(1) r renderPath_Cons stripApiPrefix_def stripLeadingSlashes_def)
qed

lemma stripApiPrefix_other:
  assumes wf: "list_all (wfPiece changeCase) a" and ne: "segmentText a \<noteq> []"
    and no: "\<not> (segmentText a = ''api'' \<and> rest \<noteq> [])"
  shows "stripApiPrefix (segmentText a @ renderPath rest) = segmentText a @ renderPath rest"
proof -
  have "take 4 (segmentText a @ renderPath rest) \<noteq> ''api/''"
  proof
    assume tk: "take 4 (segmentText a @ renderPath rest) = ''api/''"
    show False
    proof (cases "length (segmentText a) \<le> 3")
      case True
      then have "take (length (segmentText a)) ''api/'' = segmentText a"
        using arg_cong[OF tk, of "take (length (segmentText a))"] by (simp add: min_def)
      moreover have "drop (length (segmentText a)) ''api/'' = take (4 - length (segmentText a)) (renderPath rest)"
        using arg_cong[OF tk, of "drop (length (segmentText a))"] True by simp
      moreover have "length (segmentText a) = 1 \<or> length (segmentText a) = 2 \<or> length (segmentText a) = 3"
      proof -
        have "0 < length (segmentText a)" using ne by simp
        with True show ?thesis by arith
      qed
      ultimately show False using no
        by (cases rest) (auto simp: renderPath_Cons renderPath_def)
    next
      case False
      then have "take 4 (segmentText a) = ''api/''" using tk by simp
      then have "segmentText a = ''api'' @ CHR ''/'' # drop 4 (segmentText a)"
        using append_take_drop_id[of 4 "segmentText a"] by simp
      from segmentText_slash_after_brace[OF wf this] show False by simp
    qed
  qed
  then show ?thesis by (simp add: stripApiPrefix_def)
qed

lemma split_replaced:
  assumes wfa: "list_all (wfPiece changeCase) a" and wfr: "wfPath changeCase rest"
  shows "filter (\<lambda>s. s \<noteq> [])
           (splitOn CHR ''/'' (replaceParams (byParam changeCase) (segmentText a @ renderPath rest)))
         = map (replacedText changeCase) (filter (\<lambda>seg. segmentText seg \<noteq> []) (a # rest))"
proof -
  have r: "replaceParams (byParam changeCase) (segmentText a @ renderPath rest)
      = replacedText changeCase a @ concat (map (\<lambda>u. CHR ''/'' # u) (map (replacedText changeCase) rest))"
    by (simp add: replaceParams_segment[OF wfa] replaceParams_path[OF wfr] comp_def)
  have n: "\<forall>u \<in> set (map (replacedText changeCase) rest). CHR ''/'' \<notin> set u"
    using wfr by (auto simp: wfPath_def list_all_iff intro!: replacedText_no_slash)
  have "splitOn CHR ''/'' (replaceParams (byParam changeCase) (segmentText a @ renderPath rest))
      = replacedText changeCase a # map (replacedText changeCase) rest"
    unfolding r by (rule splitOn_joined[OF replacedText_no_slash[OF wfa] n])
  then show ?thesis
    by (simp add: filter_map comp_def replacedText_empty_iff)
qed

lemma filter_dropWhile_same: "filter (\<lambda>x. \<not> P x) (dropWhile P xs) = filter (\<lambda>x. \<not> P x) xs"
  by (induction xs) auto

lemma pathPartOf_afterSlashes:
  assumes wf: "wfPath changeCase segs"
  shows "concat (map (pascalCase changeCase) (filter (\<lambda>s. s \<noteq> [])
           (splitOn CHR ''/'' (replaceParams (byParam changeCase) (afterSlashes segs)))))
         = concat (map (segmentName changeCase) (filter (\<lambda>seg. segmentText seg \<noteq> []) segs))"
proof (cases "dropWhile (\<lambda>seg. segmentText seg = []) segs")
  case Nil
  then have "filter (\<lambda>seg. segmentText seg \<noteq> []) segs = []"
    using filter_dropWhile_same[of "\<lambda>seg. segmentText seg = []" segs] by simp
  moreover have "afterSlashes segs = []" unfolding afterSlashes_def Nil by simp
  ultimately show ?thesis by simp
next
  case (Cons a rest)
  have "set (a # rest) \<subseteq> set segs" using Cons set_dropWhileD by (metis subsetI)
  then have wfa: "list_all (wfPiece changeCase) a" and wfr: "wfPath changeCase rest"
    using wf by (auto simp: wfPath_def list_all_iff)
  have f: "filter (\<lambda>seg. segmentText seg \<noteq> []) segs = filter (\<lambda>seg. segmentText seg \<noteq> []) (a # rest)"
    using filter_dropWhile_same[of "\<lambda>seg. segmentText seg = []" segs] Cons by simp
  have as: "afterSlashes segs = segmentText a @ renderPath rest"
    unfolding afterSlashes_def Cons by simp
  have sn: "\<And>xs. map (segmentName changeCase) xs = map (pascalCase changeCase) (map (replacedText changeCase) xs)"
    by (simp add: segmentName_def replacedText_def)
  show ?thesis
    unfolding f as sn split_replaced[OF wfa wfr] ..
qed

lemma pathPartOf_render:
  assumes wf: "wfPath changeCase segs"
  shows "pathPartOf changeCase (renderPath segs) = specPathPart changeCase segs"
proof (cases "dropWhile (\<lambda>seg. segmentText seg = []) segs")
  case Nil
  have a: "afterSlashes segs = []" unfolding afterSlashes_def Nil by simp
  have w: "withoutApiSegment segs = []" unfolding withoutApiSegment_def Nil by simp
  have "stripLeadingSlashes (renderPath segs) = []"
    using stripLeadingSlashes_render[OF wf] a by simp
  then show ?thesis
    by (simp add: pathPartOf_def specPathPart_def w stripApiPrefix_def)
next
  case (Cons a rest)
  have sub: "set (a # rest) \<subseteq> set segs" using Cons set_dropWhileD by (metis subsetI)
  then have wfa: "list_all (wfPiece changeCase) a" and wfr: "wfPath changeCase rest"
    using wf by (auto simp: wfPath_def list_all_iff)
  have ne: "segmentText a \<noteq> []"
    using Cons hd_dropWhile[of "\<lambda>seg. segmentText seg = []" segs] by auto
  have s1: "stripLeadingSlashes (renderPath segs) = segmentText a @ renderPath rest"
    using stripLeadingSlashes_render[OF wf] Cons by (simp add: afterSlashes_def)
  show ?thesis
  proof (cases "segmentText a = ''api'' \<and> rest \<noteq> []")
    case True
    then have s2: "stripApiPrefix (segmentText a @ renderPath rest) = afterSlashes rest"
      using stripApiPrefix_api[of a rest] stripLeadingSlashes_render[OF wfr] by simp
    have w: "withoutApiSegment segs = rest"
      unfolding withoutApiSegment_def Cons using True by simp
    show ?thesis
      unfolding pathPartOf_def specPathPart_def Let_def s1 s2 w
      by (rule pathPartOf_afterSlashes[OF wfr])
  next
    case False
    have s2: "stripApiPrefix (segmentText a @ renderPath rest) = segmentText a @ renderPath rest"
      using stripApiPrefix_other[OF wfa ne False] .
    have wfar: "wfPath changeCase (a # rest)" using wfa wfr by (simp add: wfPath_def)
    have as: "afterSlashes (a # rest) = segmentText a @ renderPath rest"
      using ne by (simp add: afterSlashes_def)
    have w: "withoutApiSegment segs = a # rest"
      unfolding withoutApiSegment_def Cons using False by simp
    show ?thesis
      unfolding pathPartOf_def specPathPart_def Let_def s1 s2 w
      using pathPartOf_afterSlashes[OF wfar] unfolding as .
  qed
qed

lemma example_listDwg:
  assumes "method' interfaceInfo = ''GET''" "path interfaceInfo = ''/api/customer/v1/region/listDwg''"
    and "pascalCase changeCase ''customer'' = ''Customer''" "pascalCase changeCase ''v1'' = ''V1''"
    and "pascalCase changeCase ''region'' = ''Region''" "pascalCase changeCase ''listDwg'' = ''ListDwg''"
  shows "getRequestFunctionName interfaceInfo changeCase = ''getCustomerV1RegionListDwgApi''"
proof -
  have p: "path interfaceInfo = renderPath [[Lit ''api''], [Lit ''customer''], [Lit ''v1''], [Lit ''region''], [Lit ''listDwg'']]"
    by (simp add: assms(2) renderPath_def segmentText_def)
  have wf: "wfPath changeCase [[Lit ''api''], [Lit ''customer''], [Lit ''v1''], [Lit ''region''], [Lit ''listDwg'']]"
    by (simp add: wfPath_def)
  have m: "toLowerCase (methodOrGet (method' interfaceInfo)) = ''get''"
    unfolding assms(1) by code_simp
  show ?thesis
    unfolding getRequestFunctionName_def Let_def m p pathPartOf_render[OF wf]
    by (simp add: specPathPart_def withoutApiSegment_def segmentText_def segmentName_def assms(3-6))
qed

lemma example_menuId:
  assumes "method' interfaceInfo = ''GET''" "path interfaceInfo = ''/api/system/v1/menu/query/{menuId}''"
    and "pascalCase changeCase ''system'' = ''System''" "pascalCase changeCase ''v1'' = ''V1''"
    and "pascalCase changeCase ''menu'' = ''Menu''" "pascalCase changeCase ''query'' = ''Query''"
    and "pascalCase changeCase ''menuId'' = ''MenuId''" "pascalCase changeCase ''ByMenuId'' = ''ByMenuId''"
  shows "getRequestFunctionName interfaceInfo changeCase = ''getSystemV1MenuQueryByMenuIdApi''"
proof -
  have p: "path interfaceInfo = renderPath [[Lit ''api''], [Lit ''system''], [Lit ''v1''], [Lit ''menu''], [Lit ''query''], [Param ''menuId'']]"
    by (simp add: assms(2) renderPath_def segmentText_def)
  have wf: "wfPath changeCase [[Lit ''api''], [Lit ''system''], [Lit ''v1''], [Lit ''menu''], [Lit ''query''], [Param ''menuId'']]"
    by (simp add: wfPath_def assms(7))
  have m: "toLowerCase (methodOrGet (method' interfaceInfo)) = ''get''"
    unfolding assms(1) by code_simp
  show ?thesis
    unfolding getRequestFunctionName_def Let_def m p pathPartOf_render[OF wf]
    by (simp add: specPathPart_def withoutApiSegment_def segmentText_def segmentName_def byParam_def assms(3-8))
qed

text \<open>
  Claim C5. The generated names follow the stated algorithm. For a path written as
  \<open>/seg/seg/...\<close>, with literal pieces free of slashes and opening braces and with
  \<open>{param}\<close> placeholders: leading empty segments and a leading \<open>api\<close> segment are
  dropped, each placeholder becomes \<open>By\<close> followed by the Pascal case of its name, every
  remaining segment is put in Pascal case, and the pieces are concatenated; the function
  name is the lowercased method, the path part and \<open>Api\<close>, the request type name is the
  Pascal case of the lowercased method, the path part and \<open>RequestType\<close>. With a
  \<open>pascalCase\<close> that capitalizes the words of the two example paths, GET on them yields
  \<open>getCustomerV1RegionListDwgApi\<close> and \<open>getSystemV1MenuQueryByMenuIdApi\<close>.
\<close>

theorem identifier_generation:
  "(wfPath changeCase segs \<and> method' interfaceInfo \<noteq> [] \<and> path interfaceInfo = renderPath segs \<longrightarrow>
      getRequestFunctionName interfaceInfo changeCase
        = toLowerCase (method' interfaceInfo) @ specPathPart changeCase segs @ ''Api''
      \<and> getRequestDataTypeName interfaceInfo changeCase
        = pascalCase changeCase (toLowerCase (method' interfaceInfo)) @ specPathPart changeCase segs @ ''RequestType'')
   \<and> (method' interfaceInfo = ''GET'' \<and> path interfaceInfo = ''/api/customer/v1/region/listDwg''
        \<and> pascalCase changeCase ''customer'' = ''Customer'' \<and> pascalCase changeCase ''v1'' = ''V1''
        \<and> pascalCase changeCase ''region'' = ''Region'' \<and> pascalCase changeCase ''listDwg'' = ''ListDwg'' \<longrightarrow>
      getRequestFunctionName interfaceInfo changeCase = ''getCustomerV1RegionListDwgApi'')
   \<and> (method' interfaceInfo = ''GET'' \<and> path interfaceInfo = ''/api/system/v1/menu/query/{menuId}''
        \<and> pascalCase changeCase ''system'' = ''System'' \<and> pascalCase changeCase ''v1'' = ''V1''
        \<and> pascalCase changeCase ''menu'' = ''Menu'' \<and> pascalCase changeCase ''query'' = ''Query''
        \<and> pascalCase changeCase ''menuId'' = ''MenuId'' \<and> pascalCase changeCase ''ByMenuId'' = ''ByMenuId'' \<longrightarrow>
      getRequestFunctionName interfaceInfo changeCase = ''getSystemV1MenuQueryByMenuIdApi'')"
proof (intro conjI impI)
  assume h: "wfPath changeCase segs \<and> method' interfaceInfo \<noteq> [] \<and> path interfaceInfo = renderPath segs"
  then show "getRequestFunctionName interfaceInfo changeCase
        = toLowerCase (method' interfaceInfo) @ specPathPart changeCase segs @ ''Api''"
    by (simp add: getRequestFunctionName_def methodOrGet_def pathPartOf_render)
  from h show "getRequestDataTypeName interfaceInfo changeCase
        = pascalCase changeCase (toLowerCase (method' interfaceInfo)) @ specPathPart changeCase segs @ ''RequestType''"
    by (simp add: getRequestDataTypeName_def methodOrGet_def pathPartOf_render)
next
  assume "method' interfaceInfo = ''GET'' \<and> path interfaceInfo = ''/api/customer/v1/region/listDwg''
        \<and> pascalCase changeCase ''customer'' = ''Customer'' \<and> pascalCase changeCase ''v1'' = ''V1''
        \<and> pascalCase changeCase ''region'' = ''Region'' \<and> pascalCase changeCase ''listDwg'' = ''ListDwg''"
  then show "getRequestFunctionName interfaceInfo changeCase = ''getCustomerV1RegionListDwgApi''"
    using example_listDwg by blast
next
  assume "method' interfaceInfo = ''GET'' \<and> path interfaceInfo = ''/api/system/v1/menu/query/{menuId}''
        \<and> pascalCase changeCase ''system'' = ''System'' \<and> pascalCase changeCase ''v1'' = ''V1''
        \<and> pascalCase changeCase ''menu'' = ''Menu'' \<and> pascalCase changeCase ''query'' = ''Query''
        \<and> pascalCase changeCase ''menuId'' = ''MenuId'' \<and> pascalCase changeCase ''ByMenuId'' = ''ByMenuId''"
  then show "getRequestFunctionName interfaceInfo changeCase = ''getSystemV1MenuQueryByMenuIdApi''"
    using example_menuId by blast
qed

theorem identifier_generation_witness:
  "wfPath \<lparr>pascalCase = capitalizeWord\<rparr>
      [[Lit ''api''], [Lit ''system''], [Lit ''v1''], [Lit ''menu''], [Lit ''query''], [Param ''menuId'']]
   \<and> getRequestFunctionName (plainInterface ''GET'' ''/api/system/v1/menu/query/{menuId}'') \<lparr>pascalCase = capitalizeWord\<rparr>
       = ''getSystemV1MenuQueryByMenuIdApi''
   \<and> getRequestDataTypeName (plainInterface ''GET'' ''/api/system/v1/menu/query/{menuId}'') \<lparr>pascalCase = capitalizeWord\<rparr>
       = ''GetSystemV1MenuQueryByMenuIdRequestType''
   \<and> getRequestFunctionName (plainInterface ''GET'' ''/api/customer/v1/region/listDwg'') \<lparr>pascalCase = capitalizeWord\<rparr>
       = ''getCustomerV1RegionListDwgApi''"
proof -
  let ?cc = "\<lparr>pascalCase = capitalizeWord\<rparr>"
  let ?segs = "[[Lit ''api''], [Lit ''system''], [Lit ''v1''], [Lit ''menu''], [Lit ''query''], [Param ''menuId'']]"
  let ?i = "plainInterface ''GET'' ''/api/system/v1/menu/query/{menuId}''"
  let ?j = "plainInterface ''GET'' ''/api/customer/v1/region/listDwg''"
  have wf: "wfPath ?cc ?segs" by code_simp
  have h1: "wfPath ?cc ?segs \<and> method' ?i \<noteq> [] \<and> path ?i = renderPath ?segs"
    using wf by (simp add: plainInterface_def renderPath_def segmentText_def)
  have r1: "toLowerCase (method' ?i) @ specPathPart ?cc ?segs @ ''Api'' = ''getSystemV1MenuQueryByMenuIdApi''"
    by code_simp
  have r2: "pascalCase ?cc (toLowerCase (method' ?i)) @ specPathPart ?cc ?segs @ ''RequestType''
      = ''GetSystemV1MenuQueryByMenuIdRequestType''"
    by code_simp
  have h2: "method' ?j = ''GET'' \<and> path ?j = ''/api/customer/v1/region/listDwg''
        \<and> pascalCase ?cc ''customer'' = ''Customer'' \<and> pascalCase ?cc ''v1'' = ''V1''
        \<and> pascalCase ?cc ''region'' = ''Region'' \<and> pascalCase ?cc ''listDwg'' = ''ListDwg''"
    by code_simp
  have h3: "method' ?i = ''GET'' \<and> path ?i = ''/api/system/v1/menu/query/{menuId}''
        \<and> pascalCase ?cc ''system'' = ''System'' \<and> pascalCase ?cc ''v1'' = ''V1''
        \<and> pascalCase ?cc ''menu'' = ''Menu'' \<and> pascalCase ?cc ''query'' = ''Query''
        \<and> pascalCase ?cc ''menuId'' = ''MenuId'' \<and> pascalCase ?cc ''ByMenuId'' = ''ByMenuId''"
    by code_simp
  note t1 = identifier_generation[of ?cc ?segs ?i, THEN conjunct1, rule_format, OF h1]
  note t2 = identifier_generation[of ?cc ?segs ?j, THEN conjunct2, THEN conjunct1, rule_format, OF h2]
  note t3 = identifier_generation[of ?cc ?segs ?i, THEN conjunct2, THEN conjunct2, rule_format, OF h3]
  show ?thesis using wf t1 t2 t3 r1 r2 by simp
qed

section \<open>Properties of \<open>reachJsonSchema\<close>\<close>

lemma getProp_plain:
  "k \<notin> set objectPrototypeMembers \<Longrightarrow>
   getProp obj k = (case map_of obj k of Some v \<Rightarrow> Own v | None \<Rightarrow> Missing)"
  by (simp add: getProp_def split: option.splits)

lemma getProp_own: "map_of obj k = Some v \<Longrightarrow> getProp obj k = Own v"
  by (simp add: getProp_def)

lemma reachLoop_missing:
  assumes "firstMissing n ks = Some (k, rest)"
    and "\<forall>v \<in> set (visited n ks). \<not> isArrayForm (properties v)"
    and "\<not> (rest = [] \<and> k \<in> set objectPrototypeMembers)"
  shows "reachLoop jsonSchema (Node n) ks = Node jsonSchema"
  using assms
proof (induction ks arbitrary: n)
  case Nil
  then show ?case by simp
next
  case (Cons s ks)
  show ?case
  proof (cases "properties n")
    case None
    then show ?thesis using Cons.prems(1) by simp
  next
    case (Some p)
    show ?thesis
    proof (cases p)
      case (PropsArray xs)
      then show ?thesis using Cons.prems(2) Some by simp
    next
      case (PropsObject ps)
      show ?thesis
      proof (cases "map_of ps s")
        case None
        then have e: "k = s" "rest = ks" using Cons.prems(1) Some PropsObject by simp_all
        show ?thesis
        proof (cases ks)
          case Nil
          then show ?thesis using Some PropsObject None e Cons.prems(3) by (simp add: getProp_def)
        next
          case (Cons s' ks')
          then show ?thesis using Some PropsObject None e by (simp add: getProp_def)
        qed
      next
        case (Some c)
        have "firstMissing c ks = Some (k, rest)"
          using Cons.prems(1) \<open>properties n = Some p\<close> PropsObject Some by simp
        moreover have "\<forall>v \<in> set (visited c ks). \<not> isArrayForm (properties v)"
          using Cons.prems(2) \<open>properties n = Some p\<close> PropsObject Some by simp
        ultimately have "reachLoop jsonSchema (Node c) ks = Node jsonSchema"
          using Cons.prems(3) by (rule Cons.IH)
        then show ?thesis
          using \<open>properties n = Some p\<close> PropsObject Some by (simp add: getProp_own)
      qed
    qed
  qed
qed

lemma firstMissing_ownPath: "(firstMissing n ks = None) = (ownPath n ks \<noteq> None)"
  by (induction ks arbitrary: n) (auto split: option.splits props.splits)

lemma reachLoop_found:
  "ownPath n ks = Some S \<Longrightarrow> reachLoop jsonSchema (Node n) ks = Node S"
proof (induction ks arbitrary: n)
  case Nil
  then show ?case by simp
next
  case (Cons k ks)
  then obtain ps c where "properties n = Some (PropsObject ps)" "map_of ps k = Some c" "ownPath c ks = Some S"
    by (auto split: option.splits props.splits)
  then show ?case using Cons.IH[of c] by (simp add: getProp_own)
qed

lemma ownPath_wrapUnder: "ownPath (wrapUnder ks S) ks = Some S"
  by (induction ks) auto

text \<open>
  Claim C7. \<open>reachJsonSchema\<close> is to return the original schema whenever a segment of
  the path is not a property at its position; the code says so itself
  (\<open>if (!_last) return jsonSchema\<close>). The read \<open>last.properties?.[segment]\<close> also finds
  what every plain object inherits: on the schema \<open>{properties: {}}\<close> the path
  \<open>constructor\<close> is not an entry of \<open>properties\<close>, and the function returns the inherited
  member, which is neither the schema nor a schema at all.
\<close>

theorem reachJsonSchema_inherited_member:
  "ownPath (Schema None (Some (PropsObject [])) None None None None None []) [''constructor''] = None
   \<and> reachJsonSchema (Schema None (Some (PropsObject [])) None None None None None []) (One ''constructor'')
       = InheritedMember ''constructor''
   \<and> InheritedMember ''constructor'' \<noteq> Node (Schema None (Some (PropsObject [])) None None None None None [])"
  by (simp add: reachJsonSchema_def getProp_def objectPrototypeMembers_def)

text \<open>
  This is the only way the lookup departs from the sentence. On a schema whose
  \<open>properties\<close> along the path are name-keyed mappings, a path with a segment that is not
  an entry of \<open>properties\<close> at its position gives the original schema, unless the first
  such segment is the last one of the path and names an inherited member. The function
  has no failing branch: the optional chaining guards the one read that could throw.
\<close>

theorem reachJsonSchema_missing_path:
  "firstMissing jsonSchema (castArray dataKey) = Some (k, rest)
   \<and> (\<forall>v \<in> set (visited jsonSchema (castArray dataKey)). \<not> isArrayForm (properties v))
   \<and> \<not> (rest = [] \<and> k \<in> set objectPrototypeMembers)
   \<longrightarrow> reachJsonSchema jsonSchema dataKey = Node jsonSchema"
  by (simp add: reachJsonSchema_def reachLoop_missing)

theorem reachJsonSchema_missing_path_examples:
  "reachJsonSchema (wrapUnder [''data''] emptySchema) (More [''data'', ''list''])
       = Node (wrapUnder [''data''] emptySchema)
   \<and> reachJsonSchema (wrapUnder [''data''] emptySchema) (More [''nope'', ''constructor''])
       = Node (wrapUnder [''data''] emptySchema)
   \<and> reachJsonSchema (wrapUnder [''constructor''] emptySchema) (More [''constructor'', ''list''])
       = Node (wrapUnder [''constructor''] emptySchema)"
proof -
  let ?s = "wrapUnder [''data''] emptySchema"
  let ?c = "wrapUnder [''constructor''] emptySchema"
  have h1: "firstMissing ?s (castArray (More [''data'', ''list''])) = Some (''list'', [])
   \<and> (\<forall>v \<in> set (visited ?s (castArray (More [''data'', ''list'']))). \<not> isArrayForm (properties v))
   \<and> \<not> ([] = ([]::string list) \<and> ''list'' \<in> set objectPrototypeMembers)"
    by (simp add: emptySchema_def objectPrototypeMembers_def)
  have h2: "firstMissing ?s (castArray (More [''nope'', ''constructor''])) = Some (''nope'', [''constructor''])
   \<and> (\<forall>v \<in> set (visited ?s (castArray (More [''nope'', ''constructor'']))). \<not> isArrayForm (properties v))
   \<and> \<not> ([''constructor''] = [] \<and> ''nope'' \<in> set objectPrototypeMembers)"
    by (simp add: emptySchema_def)
  have h3: "firstMissing ?c (castArray (More [''constructor'', ''list''])) = Some (''list'', [])
   \<and> (\<forall>v \<in> set (visited ?c (castArray (More [''constructor'', ''list'']))). \<not> isArrayForm (properties v))
   \<and> \<not> ([] = ([]::string list) \<and> ''list'' \<in> set objectPrototypeMembers)"
    by (simp add: emptySchema_def objectPrototypeMembers_def)
  from reachJsonSchema_missing_path[of ?s "More [''data'', ''list'']" "''list''" "[]", rule_format, OF h1]
    reachJsonSchema_missing_path[of ?s "More [''nope'', ''constructor'']" "''nope''" "[''constructor'']", rule_format, OF h2]
    reachJsonSchema_missing_path[of ?c "More [''constructor'', ''list'']" "''list''" "[]", rule_format, OF h3]
  show ?thesis by simp
qed

text \<open>
  Claim C8. Unwrapping a schema that nests a sub-schema \<open>S\<close> under the chain of property
  names \<open>k\<close> (one key or a list of keys) returns exactly \<open>S\<close>: for the schema that holds
  nothing but the chain, and for every schema in which the chain leads to \<open>S\<close>.
\<close>

theorem reachJsonSchema_round_trip:
  "reachJsonSchema (wrapUnder (castArray k) S) k = Node S
   \<and> (ownPath W (castArray k) = Some S \<longrightarrow> reachJsonSchema W k = Node S)"
  by (simp add: reachJsonSchema_def reachLoop_found ownPath_wrapUnder)

theorem reachJsonSchema_round_trip_witness:
  "ownPath (Schema (Some (One (TName ''object'')))
             (Some (PropsObject [(''code'', emptySchema), (''data'', wrapUnder [''list''] emptySchema)]))
             None None None None None [])
     (castArray (More [''data'', ''list''])) = Some emptySchema
   \<and> reachJsonSchema (Schema (Some (One (TName ''object'')))
             (Some (PropsObject [(''code'', emptySchema), (''data'', wrapUnder [''list''] emptySchema)]))
             None None None None None [])
       (More [''data'', ''list'']) = Node emptySchema"
proof -
  let ?W = "Schema (Some (One (TName ''object'')))
             (Some (PropsObject [(''code'', emptySchema), (''data'', wrapUnder [''list''] emptySchema)]))
             None None None None None []"
  have h: "ownPath ?W (castArray (More [''data'', ''list''])) = Some emptySchema"
    by simp
  from reachJsonSchema_round_trip[of "More [''data'', ''list'']" emptySchema ?W, THEN conjunct2, rule_format, OF h] h
  show ?thesis by blast
qed

section \<open>Properties of \<open>jsonSchemaToType\<close>\<close>

lemma marked_not_empty: "truthy (getExtra c ''__is_any__'') \<Longrightarrow> c \<noteq> emptyCell"
  by (auto simp: getExtra_def emptyCell_def)

lemma cellAt_objectAt: "objectAt \<sigma> a = Some c \<Longrightarrow> cellAt \<sigma> a = c"
  by (simp add: cellAt_def)

text \<open>
  Claim C9. For every type name, an absent or empty schema yields exactly the empty
  interface declaration, and a schema that carries the \<open>__is_any__\<close> marker (with a
  truthy value, as \<open>getResponseDataJsonSchema\<close> sets it) yields exactly the \<open>any\<close> alias.
\<close>

theorem jsonSchemaToType_empty_and_any:
  "snd (jsonSchemaToType ext None typeName \<sigma>) = Inr (''export interface '' @ typeName @ '' {}'')
   \<and> (objectAt \<sigma> a = Some emptyCell \<longrightarrow>
        snd (jsonSchemaToType ext (Some a) typeName \<sigma>) = Inr (''export interface '' @ typeName @ '' {}''))
   \<and> (objectAt \<sigma> a = Some c \<and> truthy (getExtra c ''__is_any__'') \<longrightarrow>
        snd (jsonSchemaToType ext (Some a) typeName \<sigma>) = Inr (''export type '' @ typeName @ '' = any''))"
  by (auto simp: jsonSchemaToType_def cellAt_objectAt dest: marked_not_empty)

theorem jsonSchemaToType_empty_and_any_witness:
  "objectAt [emptyCell, Cell None None None None None None None [(''__is_any__'', JBool True)]] 0 = Some emptyCell
   \<and> snd (jsonSchemaToType \<lparr>compile = (\<lambda>\<sigma> a n. Inr []), resolveTypePath = (\<lambda>p r. []), callStackLimit = 100\<rparr>
            (Some 0) ''Req'' [emptyCell, Cell None None None None None None None [(''__is_any__'', JBool True)]])
       = Inr ''export interface Req {}''
   \<and> objectAt [emptyCell, Cell None None None None None None None [(''__is_any__'', JBool True)]] 1
       = Some (Cell None None None None None None None [(''__is_any__'', JBool True)])
   \<and> truthy (getExtra (Cell None None None None None None None [(''__is_any__'', JBool True)]) ''__is_any__'')
   \<and> snd (jsonSchemaToType \<lparr>compile = (\<lambda>\<sigma> a n. Inr []), resolveTypePath = (\<lambda>p r. []), callStackLimit = 100\<rparr>
            (Some 1) ''Res'' [emptyCell, Cell None None None None None None None [(''__is_any__'', JBool True)]])
       = Inr ''export type Res = any''"
proof -
  let ?ext = "\<lparr>compile = (\<lambda>\<sigma> a n. Inr []), resolveTypePath = (\<lambda>p r. []), callStackLimit = 100\<rparr>"
  let ?c = "Cell None None None None None None None [(''__is_any__'', JBool True)]"
  let ?s = "[emptyCell, ?c]"
  have h0: "objectAt ?s 0 = Some emptyCell" by (simp add: objectAt_def)
  have h1: "objectAt ?s 1 = Some ?c \<and> truthy (getExtra ?c ''__is_any__'')"
    by (simp add: objectAt_def getExtra_def)
  from jsonSchemaToType_empty_and_any[of ?ext "''Req''" ?s 0, THEN conjunct2, THEN conjunct1, rule_format, OF h0]
    jsonSchemaToType_empty_and_any[of ?ext "''Res''" ?s 1 ?c, THEN conjunct2, THEN conjunct2, rule_format, OF h1]
    h0 h1
  show ?thesis by simp
qed

subsection \<open>Code on the store that keeps an invariant\<close>

lemma preserves_returnS: "Q x \<Longrightarrow> preserves I (returnS x) Q"
  by (simp add: preserves_def returnS_def)

lemma preserves_throwS: "preserves I (throwS e) Q"
  by (simp add: preserves_def throwS_def)

lemma preserves_andThenS:
  assumes "preserves I m Q" and "\<And>x. Q x \<Longrightarrow> preserves I (f x) R"
  shows "preserves I (andThenS m f) R"
  unfolding preserves_def
proof (intro allI impI)
  fix s s' r
  assume a: "I s \<and> andThenS m f s = (s', r)"
  obtain s1 r1 where m: "m s = (s1, r1)" by (cases "m s")
  from assms(1) a m have i1: "I s1" and q: "\<forall>y. r1 = Inr y \<longrightarrow> Q y"
    unfolding preserves_def by blast+
  show "I s' \<and> (\<forall>y. r = Inr y \<longrightarrow> R y)"
  proof (cases r1)
    case (Inl e)
    then show ?thesis using a m i1 by (auto simp: andThenS_def)
  next
    case (Inr x)
    then have "f x s1 = (s', r)" using a m by (simp add: andThenS_def)
    moreover have "preserves I (f x) R" using assms(2) q Inr by blast
    ultimately show ?thesis using i1 unfolding preserves_def by blast
  qed
qed

lemma preserves_weaken: "preserves I m Q \<Longrightarrow> (\<And>y. Q y \<Longrightarrow> R y) \<Longrightarrow> preserves I m R"
  unfolding preserves_def by blast

lemma preserves_read: "(\<And>s. I s \<Longrightarrow> preserves I (M s) Q) \<Longrightarrow> preserves I (\<lambda>s. M s s) Q"
  unfolding preserves_def by blast

lemma preserves_mapS:
  "(\<And>x. x \<in> set xs \<Longrightarrow> preserves I (f x) Q) \<Longrightarrow> preserves I (mapS f xs) (\<lambda>ys. \<forall>y \<in> set ys. Q y)"
proof (induction xs)
  case Nil
  show ?case unfolding mapS.simps by (rule preserves_returnS) simp
next
  case (Cons x xs)
  have tl: "preserves I (mapS f xs) (\<lambda>ys. \<forall>y \<in> set ys. Q y)"
    by (rule Cons.IH) (simp add: Cons.prems)
  have hd: "preserves I (f x) Q" by (simp add: Cons.prems)
  show ?case
    unfolding mapS.simps
  proof (rule preserves_andThenS[OF hd])
    fix y assume y: "Q y"
    show "preserves I (andThenS (mapS f xs) (\<lambda>ys. returnS (y # ys))) (\<lambda>ys. \<forall>y \<in> set ys. Q y)"
      by (rule preserves_andThenS[OF tl]) (rule preserves_returnS, simp add: y)
  qed
qed

lemma preserves_forEachS:
  "(\<And>x. x \<in> set xs \<Longrightarrow> preserves I (f x) Q) \<Longrightarrow> preserves I (forEachS f xs) (\<lambda>u. True)"
  unfolding forEachS_def
  by (rule preserves_andThenS[OF preserves_mapS], assumption) (rule preserves_returnS, simp)

lemma preserves_cloneProps:
  assumes "\<And>x. preserves I (f x) Q"
  shows "preserves I (cloneProps f p)
           (\<lambda>p'. \<forall>x \<in> set (case p' of None \<Rightarrow> [] | Some q \<Rightarrow> propsValues q). Q x)"
proof (cases p)
  case None
  show ?thesis unfolding None by (simp del: mapS.simps) (rule preserves_returnS, simp)
next
  case (Some q)
  show ?thesis
  proof (cases q)
    case (PropsObject ps)
    have e: "preserves I (andThenS (f (snd x)) (\<lambda>r. returnS (fst x, r))) (\<lambda>e. Q (snd e))" for x
      by (rule preserves_andThenS[OF assms]) (rule preserves_returnS, simp)
    have "preserves I (mapS (\<lambda>(key, subValue). andThenS (f subValue) (\<lambda>r. returnS (key, r))) ps)
            (\<lambda>ys. \<forall>y \<in> set ys. Q (snd y))"
      by (rule preserves_mapS) (use e in \<open>simp add: case_prod_beta\<close>)
    then show ?thesis unfolding Some PropsObject cloneProps.simps
      by (rule preserves_andThenS) (rule preserves_returnS, simp)
  next
    case (PropsArray xs)
    have "preserves I (mapS f xs) (\<lambda>ys. \<forall>y \<in> set ys. Q y)"
      by (rule preserves_mapS) (rule assms)
    then show ?thesis unfolding Some PropsArray cloneProps.simps
      by (rule preserves_andThenS) (rule preserves_returnS, simp)
  qed
qed

lemma preserves_cloneItems:
  assumes "\<And>x. preserves I (f x) Q"
  shows "preserves I (cloneItems f i)
           (\<lambda>i'. \<forall>x \<in> set (case i' of None \<Rightarrow> [] | Some q \<Rightarrow> castArray q). Q x)"
proof (cases i)
  case None
  show ?thesis unfolding None by (simp del: mapS.simps) (rule preserves_returnS, simp)
next
  case (Some q)
  show ?thesis
  proof (cases q)
    case (One c)
    show ?thesis unfolding Some One cloneItems.simps
      by (rule preserves_andThenS[OF assms]) (rule preserves_returnS, simp)
  next
    case (More xs)
    have "preserves I (mapS f xs) (\<lambda>ys. \<forall>y \<in> set ys. Q y)"
      by (rule preserves_mapS) (rule assms)
    then show ?thesis unfolding Some More cloneItems.simps
      by (rule preserves_andThenS) (rule preserves_returnS, simp)
  qed
qed

lemma preserves_cloneList:
  assumes "\<And>x. preserves I (f x) Q"
  shows "preserves I (cloneList f l)
           (\<lambda>l'. \<forall>x \<in> set (case l' of None \<Rightarrow> [] | Some xs \<Rightarrow> xs). Q x)"
proof (cases l)
  case None
  show ?thesis unfolding None by (simp del: mapS.simps) (rule preserves_returnS, simp)
next
  case (Some xs)
  have "preserves I (mapS f xs) (\<lambda>ys. \<forall>y \<in> set ys. Q y)"
    by (rule preserves_mapS) (rule assms)
  then show ?thesis unfolding Some cloneList.simps
    by (rule preserves_andThenS) (rule preserves_returnS, simp)
qed

subsection \<open>The objects that were there before\<close>

lemma keeps_refl: "keeps \<sigma> \<sigma>"
  by (simp add: keeps_def freshFrom_def)

lemma keeps_nth: "keeps \<sigma>0 \<sigma> \<Longrightarrow> i < length \<sigma>0 \<Longrightarrow> \<sigma> ! i = \<sigma>0 ! i"
  unfolding keeps_def by (metis nth_take)

lemma keeps_append:
  assumes "keeps \<sigma>0 \<sigma>" and "\<forall>x \<in> set (cellChildren c). length \<sigma>0 \<le> x"
  shows "keeps \<sigma>0 (\<sigma> @ [c])"
  using assms unfolding keeps_def freshFrom_def
  by (auto simp: nth_append)

lemma keeps_update:
  assumes "keeps \<sigma>0 \<sigma>" and "length \<sigma>0 \<le> a" and "\<forall>x \<in> set (cellChildren c). length \<sigma>0 \<le> x"
  shows "keeps \<sigma>0 (\<sigma>[a := c])"
proof -
  have "freshFrom (length \<sigma>0) (\<sigma>[a := c])"
    unfolding freshFrom_def
  proof (intro allI impI)
    fix i assume i: "length \<sigma>0 \<le> i \<and> i < length (\<sigma>[a := c])"
    show "\<forall>x \<in> set (cellChildren (\<sigma>[a := c] ! i)). length \<sigma>0 \<le> x"
    proof (cases "i = a")
      case True
      then show ?thesis using i assms(3) by simp
    next
      case False
      then have "\<sigma>[a := c] ! i = \<sigma> ! i" by simp
      then show ?thesis using i assms(1) unfolding keeps_def freshFrom_def by simp
    qed
  qed
  then show ?thesis using assms(1,2) unfolding keeps_def by (simp add: take_update_cancel)
qed

lemma cellChildren_emptyCell [simp]: "cellChildren emptyCell = []"
  by (simp add: cellChildren_def emptyCell_def)

lemma keeps_children:
  assumes "keeps \<sigma>0 \<sigma>" and "length \<sigma>0 \<le> a" and "x \<in> set (cellChildren (cellAt \<sigma> a))"
  shows "length \<sigma>0 \<le> x"
proof (cases "a < length \<sigma>")
  case True
  then have "cellAt \<sigma> a = \<sigma> ! a" by (simp add: cellAt_def objectAt_def)
  then show ?thesis using assms True unfolding keeps_def freshFrom_def by auto
next
  case False
  then have "cellAt \<sigma> a = emptyCell" by (simp add: cellAt_def objectAt_def)
  then show ?thesis using assms(3) by simp
qed

lemma cellChildren_Cell:
  "set (cellChildren (Cell t p i r o1 a1 l1 e))
     = set (case p of None \<Rightarrow> [] | Some q \<Rightarrow> propsValues q)
       \<union> set (case i of None \<Rightarrow> [] | Some q \<Rightarrow> castArray q)
       \<union> set (case o1 of None \<Rightarrow> [] | Some xs \<Rightarrow> xs)
       \<union> set (case a1 of None \<Rightarrow> [] | Some xs \<Rightarrow> xs)
       \<union> set (case l1 of None \<Rightarrow> [] | Some xs \<Rightarrow> xs)"
  unfolding cellChildren_def cell.sel set_append by blast

lemma cellChildren_withCellExtras [simp]: "cellChildren (withCellExtras e c) = cellChildren c"
  by (simp add: cellChildren_def withCellExtras_def)

text \<open>\<open>cloneDeep\<close> writes new objects only, and the copy refers to new objects only.\<close>

lemma preserves_store_update:
  assumes "length \<sigma>0 \<le> result" and "\<forall>x \<in> set (cellChildren c). length \<sigma>0 \<le> x"
  shows "preserves (\<lambda>s :: (addr \<times> addr) list \<times> store. keeps \<sigma>0 (snd s) \<and> (\<forall>e \<in> set (fst s). length \<sigma>0 \<le> snd e))
           (\<lambda>(stack', \<sigma>'). ((stack', \<sigma>'[result := c]), Inr result)) (\<lambda>r. length \<sigma>0 \<le> r)"
  unfolding preserves_def
proof (intro allI impI)
  fix s :: "(addr \<times> addr) list \<times> store" and s' :: "(addr \<times> addr) list \<times> store" and r :: "error + addr"
  assume a: "(keeps \<sigma>0 (snd s) \<and> (\<forall>e \<in> set (fst s). length \<sigma>0 \<le> snd e))
      \<and> (case s of (stack', \<sigma>') \<Rightarrow> ((stack', \<sigma>'[result := c]), Inr result)) = (s', r)"
  obtain stack \<sigma> where s: "s = (stack, \<sigma>)" by (cases s)
  from a have s': "s' = (stack, \<sigma>[result := c])" and r: "r = Inr result" by (simp_all add: s)
  have "keeps \<sigma>0 (\<sigma>[result := c])"
    by (rule keeps_update) (use a s assms in simp_all)
  then show "(keeps \<sigma>0 (snd s') \<and> (\<forall>e \<in> set (fst s'). length \<sigma>0 \<le> snd e))
      \<and> (\<forall>y. r = Inr y \<longrightarrow> length \<sigma>0 \<le> y)"
    using a s s' r assms(1) by simp
qed

lemma baseClone_Suc:
  "baseClone (Suc depth) v (stack, \<sigma>) =
     (case objectAt \<sigma> v of
          None \<Rightarrow> ((stack, \<sigma>), Inr v)
        | Some c \<Rightarrow>
            (case map_of stack v of
               Some stacked \<Rightarrow> ((stack, \<sigma>), Inr stacked)
             | None \<Rightarrow>
                     andThenS (cloneProps (baseClone depth) (cproperties c)) (\<lambda>p.
                     andThenS (cloneItems (baseClone depth) (citems c)) (\<lambda>i.
                     andThenS (cloneList (baseClone depth) (coneOf c)) (\<lambda>o1.
                     andThenS (cloneList (baseClone depth) (canyOf c)) (\<lambda>a1.
                     andThenS (cloneList (baseClone depth) (callOf c)) (\<lambda>l1 (stack', \<sigma>').
                       ((stack', \<sigma>'[length \<sigma> := Cell (ctype c) p i (crequired c) o1 a1 l1 (cextras c)]),
                        Inr (length \<sigma>)))))))
                       ((v, length \<sigma>) # stack, \<sigma> @ [emptyCell])))"
  by (simp only: baseClone.simps prod.case Let_def)

lemma preserves_baseClone:
  "preserves (\<lambda>s. keeps \<sigma>0 (snd s) \<and> (\<forall>e \<in> set (fst s). length \<sigma>0 \<le> snd e))
     (baseClone depth v) (\<lambda>r. length \<sigma>0 \<le> r)"
proof (induction depth arbitrary: v)
  case 0
  show ?case unfolding baseClone.simps by (rule preserves_throwS)
next
  case (Suc depth)
  let ?I = "\<lambda>s :: (addr \<times> addr) list \<times> store. keeps \<sigma>0 (snd s) \<and> (\<forall>e \<in> set (fst s). length \<sigma>0 \<le> snd e)"
  let ?Q = "\<lambda>r. length \<sigma>0 \<le> r"
  note IH = Suc.IH
  show ?case
    unfolding preserves_def
  proof (intro allI impI)
    fix s :: "(addr \<times> addr) list \<times> store" and s' r
    assume a: "?I s \<and> baseClone (Suc depth) v s = (s', r)"
    obtain stack \<sigma> where s: "s = (stack, \<sigma>)" by (cases s)
    from a s have k: "keeps \<sigma>0 \<sigma>" and st: "\<forall>e \<in> set stack. length \<sigma>0 \<le> snd e" by simp_all
    from a s have eq: "baseClone (Suc depth) v (stack, \<sigma>) = (s', r)" by simp
    have inv: "?I (stack, \<sigma>)" using k st by simp
    show "?I s' \<and> (\<forall>y. r = Inr y \<longrightarrow> ?Q y)"
    proof (cases "objectAt \<sigma> v")
      case None
      then have "length \<sigma> \<le> v" by (simp add: objectAt_def split: if_splits)
      moreover have "length \<sigma>0 \<le> length \<sigma>" using k by (simp add: keeps_def)
      ultimately have v: "length \<sigma>0 \<le> v" by simp
      from eq have "s' = (stack, \<sigma>)" "r = Inr v"
        unfolding baseClone_Suc None option.case by simp_all
      then show ?thesis using inv v by simp
    next
      case (Some c)
      show ?thesis
      proof (cases "map_of stack v")
        case (Some stacked)
        then have "(v, stacked) \<in> set stack" by (rule map_of_SomeD)
        then have q: "length \<sigma>0 \<le> stacked" using st by force
        from eq have "s' = (stack, \<sigma>)" "r = Inr stacked"
          unfolding baseClone_Suc \<open>objectAt \<sigma> v = Some c\<close> Some option.case by simp_all
        then show ?thesis using inv q by simp
      next
        case None
        let ?result = "length \<sigma>"
        let ?s1 = "((v, ?result) # stack, \<sigma> @ [emptyCell])"
        let ?body = "andThenS (cloneProps (baseClone depth) (cproperties c)) (\<lambda>p.
                     andThenS (cloneItems (baseClone depth) (citems c)) (\<lambda>i.
                     andThenS (cloneList (baseClone depth) (coneOf c)) (\<lambda>o1.
                     andThenS (cloneList (baseClone depth) (canyOf c)) (\<lambda>a1.
                     andThenS (cloneList (baseClone depth) (callOf c)) (\<lambda>l1 (stack', \<sigma>').
                       ((stack', \<sigma>'[?result := Cell (ctype c) p i (crequired c) o1 a1 l1 (cextras c)]),
                        Inr ?result))))))"
        have res: "length \<sigma>0 \<le> ?result" using k by (simp add: keeps_def)
        have "keeps \<sigma>0 (\<sigma> @ [emptyCell])" by (rule keeps_append[OF k]) simp
        then have i1: "?I ?s1" using st res by simp
        have run: "?body ?s1 = (s', r)"
          using eq unfolding baseClone_Suc \<open>objectAt \<sigma> v = Some c\<close> None option.case .
        have "preserves ?I ?body ?Q"
        proof (rule preserves_andThenS[OF preserves_cloneProps[OF IH]])
          fix p assume p: "\<forall>x \<in> set (case p of None \<Rightarrow> [] | Some q \<Rightarrow> propsValues q). length \<sigma>0 \<le> x"
          show "preserves ?I (andThenS (cloneItems (baseClone depth) (citems c)) (\<lambda>i.
                     andThenS (cloneList (baseClone depth) (coneOf c)) (\<lambda>o1.
                     andThenS (cloneList (baseClone depth) (canyOf c)) (\<lambda>a1.
                     andThenS (cloneList (baseClone depth) (callOf c)) (\<lambda>l1 (stack', \<sigma>').
                       ((stack', \<sigma>'[?result := Cell (ctype c) p i (crequired c) o1 a1 l1 (cextras c)]),
                        Inr ?result)))))) ?Q"
          proof (rule preserves_andThenS[OF preserves_cloneItems[OF IH]])
            fix i assume i: "\<forall>x \<in> set (case i of None \<Rightarrow> [] | Some q \<Rightarrow> castArray q). length \<sigma>0 \<le> x"
            show "preserves ?I (andThenS (cloneList (baseClone depth) (coneOf c)) (\<lambda>o1.
                     andThenS (cloneList (baseClone depth) (canyOf c)) (\<lambda>a1.
                     andThenS (cloneList (baseClone depth) (callOf c)) (\<lambda>l1 (stack', \<sigma>').
                       ((stack', \<sigma>'[?result := Cell (ctype c) p i (crequired c) o1 a1 l1 (cextras c)]),
                        Inr ?result))))) ?Q"
            proof (rule preserves_andThenS[OF preserves_cloneList[OF IH]])
              fix o1 assume o1: "\<forall>x \<in> set (case o1 of None \<Rightarrow> [] | Some xs \<Rightarrow> xs). length \<sigma>0 \<le> x"
              show "preserves ?I (andThenS (cloneList (baseClone depth) (canyOf c)) (\<lambda>a1.
                     andThenS (cloneList (baseClone depth) (callOf c)) (\<lambda>l1 (stack', \<sigma>').
                       ((stack', \<sigma>'[?result := Cell (ctype c) p i (crequired c) o1 a1 l1 (cextras c)]),
                        Inr ?result)))) ?Q"
              proof (rule preserves_andThenS[OF preserves_cloneList[OF IH]])
                fix a1 assume a1: "\<forall>x \<in> set (case a1 of None \<Rightarrow> [] | Some xs \<Rightarrow> xs). length \<sigma>0 \<le> x"
                show "preserves ?I (andThenS (cloneList (baseClone depth) (callOf c)) (\<lambda>l1 (stack', \<sigma>').
                       ((stack', \<sigma>'[?result := Cell (ctype c) p i (crequired c) o1 a1 l1 (cextras c)]),
                        Inr ?result))) ?Q"
                proof (rule preserves_andThenS[OF preserves_cloneList[OF IH]])
                  fix l1 assume l1: "\<forall>x \<in> set (case l1 of None \<Rightarrow> [] | Some xs \<Rightarrow> xs). length \<sigma>0 \<le> x"
                  have ch: "\<forall>x \<in> set (cellChildren (Cell (ctype c) p i (crequired c) o1 a1 l1 (cextras c))). length \<sigma>0 \<le> x"
                    unfolding cellChildren_Cell using p i o1 a1 l1 by blast
                  show "preserves ?I (\<lambda>(stack', \<sigma>').
                       ((stack', \<sigma>'[?result := Cell (ctype c) p i (crequired c) o1 a1 l1 (cextras c)]),
                        Inr ?result)) ?Q"
                    by (rule preserves_store_update[OF res ch])
                qed
              qed
            qed
          qed
        qed
        then have "?I s' \<and> (\<forall>y. r = Inr y \<longrightarrow> ?Q y)"
          unfolding preserves_def using i1 run by blast
        then show ?thesis .
      qed
    qed
  qed
qed

lemma cloneDeep_keeps:
  assumes "cloneDeep ext v \<sigma> = (\<sigma>', r)"
  shows "keeps \<sigma> \<sigma>' \<and> (\<forall>b. r = Inr b \<longrightarrow> length \<sigma> \<le> b)"
proof -
  obtain stack \<sigma>1 r1 where b: "baseClone (callStackLimit ext) v ([], \<sigma>) = ((stack, \<sigma>1), r1)"
    by (cases "baseClone (callStackLimit ext) v ([], \<sigma>)") auto
  with assms have e: "\<sigma>1 = \<sigma>'" "r1 = r" by (simp_all add: cloneDeep_def)
  have i: "keeps \<sigma> (snd ([] :: (addr \<times> addr) list, \<sigma>))
      \<and> (\<forall>e \<in> set (fst ([] :: (addr \<times> addr) list, \<sigma>)). length \<sigma> \<le> snd e)"
    by (simp add: keeps_refl)
  from preserves_baseClone[of \<sigma> "callStackLimit ext" v, unfolded preserves_def, rule_format, OF conjI[OF i b]]
  show ?thesis by (simp add: e)
qed

text \<open>
  The traversal, started at a new object with a callback that adds no reference to the
  node, writes new objects only.
\<close>

lemma values_repairCellFold:
  "snd ` set (foldl (\<lambda>props js. setProp (propertyKeyAt \<sigma> js) js props) init xs) \<subseteq> snd ` set init \<union> set xs"
proof (induction xs arbitrary: init)
  case Nil
  show ?case by simp
next
  case (Cons x xs)
  have "snd ` set (foldl (\<lambda>props js. setProp (propertyKeyAt \<sigma> js) js props) (setProp (propertyKeyAt \<sigma> x) x init) xs)
      \<subseteq> snd ` set (setProp (propertyKeyAt \<sigma> x) x init) \<union> set xs"
    by (rule Cons.IH)
  also have "\<dots> \<subseteq> snd ` set init \<union> set (x # xs)"
    using values_setProp[of "propertyKeyAt \<sigma> x" x init] by auto
  finally show ?case by simp
qed

lemma cellChildren_repairCell: "set (cellChildren (repairCell \<sigma> c)) \<subseteq> set (cellChildren c)"
proof (cases "cproperties c")
  case None
  then show ?thesis by (simp add: repairCell_def)
next
  case (Some p)
  show ?thesis
  proof (cases p)
    case (PropsObject ps)
    then show ?thesis using Some by (simp add: repairCell_def)
  next
    case (PropsArray xs)
    then show ?thesis
      using Some values_repairCellFold[of \<sigma> "[]" xs]
      by (auto simp: repairCell_def withCellProperties_def cellChildren_def)
  qed
qed

lemma visits_snd: "snd ` set (map (\<lambda>(k, item). (f k, item)) ps) = snd ` set ps"
  by (simp add: image_image case_prod_beta)

lemma snd_enumerate: "snd ` set (enumerate n xs) = set xs"
  using map_snd_enumerate[of n xs] by (metis set_map)

lemma propsVisits_children: "snd ` set (propsVisits currentPath (cproperties c)) \<subseteq> set (cellChildren c)"
proof (cases "cproperties c")
  case None
  then show ?thesis by simp
next
  case (Some p)
  show ?thesis
  proof (cases p)
    case (PropsObject ps)
    show ?thesis unfolding Some PropsObject propsVisits.simps visits_snd
      by (simp add: cellChildren_def Some PropsObject)
  next
    case (PropsArray xs)
    show ?thesis unfolding Some PropsArray propsVisits.simps visits_snd snd_enumerate
      by (simp add: cellChildren_def Some PropsArray)
  qed
qed

lemma itemsVisits_children: "snd ` set (itemsVisits currentPath (citems c)) \<subseteq> set (cellChildren c)"
proof (cases "citems c")
  case None
  then show ?thesis by simp
next
  case (Some i)
  show ?thesis unfolding Some itemsVisits.simps visits_snd snd_enumerate
    by (auto simp: cellChildren_def Some)
qed

lemma listVisits_children: "snd ` set (listVisits currentPath l) \<subseteq> set (case l of None \<Rightarrow> [] | Some xs \<Rightarrow> xs)"
  by (cases l) (simp_all add: image_image)

lemma preserves_traverseJsonSchemaAt:
  assumes cb: "\<And>p c c'. cb p c = Inr c' \<Longrightarrow> set (cellChildren c') \<subseteq> set (cellChildren c)"
  shows "length \<sigma>0 \<le> a \<Longrightarrow> preserves (keeps \<sigma>0) (traverseJsonSchemaAt depth cb currentPath a) (\<lambda>u. True)"
proof (induction depth arbitrary: currentPath a)
  case 0
  show ?case by (simp add: preserves_throwS)
next
  case (Suc depth)
  note a = Suc.prems
  have visit: "preserves (keeps \<sigma>0)
        (\<lambda>s. forEachS (\<lambda>(childPath, item). traverseJsonSchemaAt depth cb childPath item) (V (cellAt s a)) s)
        (\<lambda>u. True)"
    if V: "\<And>c. snd ` set (V c) \<subseteq> set (cellChildren c)" for V :: "cell \<Rightarrow> (pathKey list \<times> addr) list"
  proof (rule preserves_read[where M = "\<lambda>s. forEachS (\<lambda>(childPath, item). traverseJsonSchemaAt depth cb childPath item) (V (cellAt s a))"])
    fix s assume k: "keeps \<sigma>0 s"
    show "preserves (keeps \<sigma>0)
        (forEachS (\<lambda>(childPath, item). traverseJsonSchemaAt depth cb childPath item) (V (cellAt s a)))
        (\<lambda>u. True)"
    proof (rule preserves_forEachS)
      fix x assume "x \<in> set (V (cellAt s a))"
      then have "snd x \<in> set (cellChildren (cellAt s a))" using V by blast
      then have "length \<sigma>0 \<le> snd x" using keeps_children[OF k a] by blast
      then show "preserves (keeps \<sigma>0) (case x of (childPath, item) \<Rightarrow> traverseJsonSchemaAt depth cb childPath item) (\<lambda>u. True)"
        using Suc.IH[of "snd x" "fst x"] by (simp add: case_prod_beta)
    qed
  qed
  have oneOf: "snd ` set (listVisits currentPath (coneOf c)) \<subseteq> set (cellChildren c)" for c
    using listVisits_children[of currentPath "coneOf c"] by (auto simp: cellChildren_def)
  have anyOf: "snd ` set (listVisits currentPath (canyOf c)) \<subseteq> set (cellChildren c)" for c
    using listVisits_children[of currentPath "canyOf c"] by (auto simp: cellChildren_def)
  have allOf: "snd ` set (listVisits currentPath (callOf c)) \<subseteq> set (cellChildren c)" for c
    using listVisits_children[of currentPath "callOf c"] by (auto simp: cellChildren_def)
  let ?rest = "andThenS (\<lambda>s. forEachS (\<lambda>(childPath, item). traverseJsonSchemaAt depth cb childPath item)
                                  (propsVisits currentPath (cproperties (cellAt s a))) s) (\<lambda>u.
                  andThenS (\<lambda>s. forEachS (\<lambda>(childPath, item). traverseJsonSchemaAt depth cb childPath item)
                                  (itemsVisits currentPath (citems (cellAt s a))) s) (\<lambda>u.
                  andThenS (\<lambda>s. forEachS (\<lambda>(childPath, item). traverseJsonSchemaAt depth cb childPath item)
                                  (listVisits currentPath (coneOf (cellAt s a))) s) (\<lambda>u.
                  andThenS (\<lambda>s. forEachS (\<lambda>(childPath, item). traverseJsonSchemaAt depth cb childPath item)
                                  (listVisits currentPath (canyOf (cellAt s a))) s) (\<lambda>u.
                           (\<lambda>s. forEachS (\<lambda>(childPath, item). traverseJsonSchemaAt depth cb childPath item)
                                  (listVisits currentPath (callOf (cellAt s a))) s)))))"
  note v1 = visit[of "\<lambda>c. propsVisits currentPath (cproperties c)", OF propsVisits_children]
  note v2 = visit[of "\<lambda>c. itemsVisits currentPath (citems c)", OF itemsVisits_children]
  note v3 = visit[of "\<lambda>c. listVisits currentPath (coneOf c)", OF oneOf]
  note v4 = visit[of "\<lambda>c. listVisits currentPath (canyOf c)", OF anyOf]
  note v5 = visit[of "\<lambda>c. listVisits currentPath (callOf c)", OF allOf]
  have rest: "preserves (keeps \<sigma>0) ?rest (\<lambda>u. True)"
    by (rule preserves_andThenS[OF v1], rule preserves_andThenS[OF v2],
        rule preserves_andThenS[OF v3], rule preserves_andThenS[OF v4], rule v5)
  show ?case
    unfolding preserves_def
  proof (intro allI impI)
    fix \<sigma> \<sigma>' r
    assume h: "keeps \<sigma>0 \<sigma> \<and> traverseJsonSchemaAt (Suc depth) cb currentPath a \<sigma> = (\<sigma>', r)"
    then have k: "keeps \<sigma>0 \<sigma>" by simp
    show "keeps \<sigma>0 \<sigma>' \<and> (\<forall>y. r = Inr y \<longrightarrow> True)"
    proof (cases "objectAt \<sigma> a")
      case None
      then have "\<sigma>' = \<sigma>" using h by auto
      then show ?thesis using k by simp
    next
      case (Some c)
      then have al: "a < length \<sigma>" and c: "cellAt \<sigma> a = c"
        by (auto simp: objectAt_def cellAt_def split: if_splits)
      let ?\<sigma>1 = "\<sigma>[a := repairCell \<sigma> c]"
      have cc: "\<forall>x \<in> set (cellChildren c). length \<sigma>0 \<le> x"
        using keeps_children[OF k a] c by blast
      then have rc: "\<forall>x \<in> set (cellChildren (repairCell \<sigma> c)). length \<sigma>0 \<le> x"
        using cellChildren_repairCell[of \<sigma> c] by blast
      have k1: "keeps \<sigma>0 ?\<sigma>1" by (rule keeps_update[OF k a rc])
      have c1: "cellAt ?\<sigma>1 a = repairCell \<sigma> c" using al by (simp add: cellAt_def objectAt_def)
      show ?thesis
      proof (cases "cb currentPath (repairCell \<sigma> c)")
        case (Inl e)
        then show ?thesis using h Some k1 c1 by (simp add: Let_def)
      next
        case (Inr c')
        have "\<forall>x \<in> set (cellChildren c'). length \<sigma>0 \<le> x" using cb[OF Inr] rc by blast
        then have k2: "keeps \<sigma>0 (?\<sigma>1[a := c'])" by (rule keeps_update[OF k1 a])
        have "?rest (?\<sigma>1[a := c']) = (\<sigma>', r)" using h Some c1 Inr by (simp add: Let_def)
        with rest k2 show ?thesis unfolding preserves_def by blast
      qed
    qed
  qed
qed

lemma cellChildren_jsttCallback:
  "jsttCallback ext typeName currentPath c = Inr c' \<Longrightarrow> set (cellChildren c') \<subseteq> set (cellChildren c)"
  by (auto simp: jsttCallback_def Let_def andThen_def split: sum.splits)

lemma jsonSchemaToJSTTJsonSchema_keeps:
  assumes "keeps \<sigma>0 \<sigma>" and "length \<sigma>0 \<le> a" and "jsonSchemaToJSTTJsonSchema ext a typeName \<sigma> = (\<sigma>', r)"
  shows "keeps \<sigma>0 \<sigma>'"
proof -
  let ?\<sigma>1 = "case objectAt \<sigma> a of
          None \<Rightarrow> \<sigma>
        | Some c \<Rightarrow> \<sigma>[a := withCellExtras (AList.delete ''description'' (cextras c)) c]"
  have k1: "keeps \<sigma>0 ?\<sigma>1"
  proof (cases "objectAt \<sigma> a")
    case None
    then show ?thesis using assms(1) by simp
  next
    case (Some c)
    then have "cellAt \<sigma> a = c" by (simp add: cellAt_def)
    then have "\<forall>x \<in> set (cellChildren c). length \<sigma>0 \<le> x"
      using keeps_children[OF assms(1,2)] by blast
    then show ?thesis using Some keeps_update[OF assms(1,2)] by simp
  qed
  have t: "preserves (keeps \<sigma>0)
      (traverseJsonSchemaAt (callStackLimit ext) (jsttCallback ext typeName) [] a) (\<lambda>u. True)"
    using cellChildren_jsttCallback[of ext typeName] assms(2)
    by (rule preserves_traverseJsonSchemaAt)
  have "preserves (keeps \<sigma>0)
      (andThenS (traverseJsonSchemaAt (callStackLimit ext) (jsttCallback ext typeName) [] a) (\<lambda>u. returnS a))
      (\<lambda>r. True)"
    by (rule preserves_andThenS[OF t]) (rule preserves_returnS, simp)
  with k1 assms(3) show ?thesis unfolding preserves_def jsonSchemaToJSTTJsonSchema_def by blast
qed

lemma jsonSchemaToType_keeps:
  assumes "\<not> truthy (getExtra (cellAt \<sigma> a) ''__is_any__'')"
  shows "keeps \<sigma> (fst (jsonSchemaToType ext (Some a) typeName \<sigma>))"
proof (cases "isEmpty \<sigma> (Some a)")
  case True
  then show ?thesis by (simp add: jsonSchemaToType_def keeps_refl)
next
  case False
  obtain \<sigma>1 r1 where cl: "cloneDeep ext a \<sigma> = (\<sigma>1, r1)" by (cases "cloneDeep ext a \<sigma>")
  note k1 = cloneDeep_keeps[OF cl]
  show ?thesis
  proof (cases r1)
    case (Inl e)
    then show ?thesis using False assms cl k1 by (simp add: jsonSchemaToType_def andThenS_def)
  next
    case (Inr b)
    then have b: "length \<sigma> \<le> b" using k1 by simp
    obtain \<sigma>2 r2 where j: "jsonSchemaToJSTTJsonSchema ext b typeName \<sigma>1 = (\<sigma>2, r2)"
      by (cases "jsonSchemaToJSTTJsonSchema ext b typeName \<sigma>1")
    have "keeps \<sigma> \<sigma>2" using jsonSchemaToJSTTJsonSchema_keeps[OF _ b j] k1 by blast
    then show ?thesis using False assms cl Inr j
      by (cases r2) (simp_all add: jsonSchemaToType_def andThenS_def)
  qed
qed

text \<open>What a deep read of an earlier object finds is what it found before.\<close>

lemma those_map_cong: "(\<And>x. x \<in> set xs \<Longrightarrow> f x = g x) \<Longrightarrow> those (map f xs) = those (map g xs)"
  by (induction xs) (auto split: option.splits)

lemma readProps_cong:
  assumes "\<And>x. x \<in> set (case p of None \<Rightarrow> [] | Some q \<Rightarrow> propsValues q) \<Longrightarrow> f x = g x"
  shows "readProps f p = readProps g p"
proof (cases p)
  case None
  then show ?thesis by simp
next
  case (Some q)
  show ?thesis
  proof (cases q)
    case (PropsObject ps)
    have "those (map (\<lambda>(key, c). map_option (Pair key) (f c)) ps)
        = those (map (\<lambda>(key, c). map_option (Pair key) (g c)) ps)"
      by (rule those_map_cong) (use assms Some PropsObject in \<open>force simp: case_prod_beta\<close>)
    then show ?thesis by (simp add: Some PropsObject)
  next
    case (PropsArray xs)
    have "those (map f xs) = those (map g xs)"
      by (rule those_map_cong) (use assms Some PropsArray in simp)
    then show ?thesis by (simp add: Some PropsArray)
  qed
qed

lemma readItems_cong:
  assumes "\<And>x. x \<in> set (case i of None \<Rightarrow> [] | Some q \<Rightarrow> castArray q) \<Longrightarrow> f x = g x"
  shows "readItems f i = readItems g i"
proof (cases i)
  case None
  then show ?thesis by simp
next
  case (Some q)
  show ?thesis
  proof (cases q)
    case (One c)
    then show ?thesis using assms Some by simp
  next
    case (More xs)
    have "those (map f xs) = those (map g xs)"
      by (rule those_map_cong) (use assms Some More in simp)
    then show ?thesis by (simp add: Some More)
  qed
qed

lemma readList_cong:
  assumes "\<And>x. x \<in> set (case l of None \<Rightarrow> [] | Some xs \<Rightarrow> xs) \<Longrightarrow> f x = g x"
  shows "readList f l = readList g l"
proof (cases l)
  case None
  then show ?thesis by simp
next
  case (Some xs)
  have "those (map f xs) = those (map g xs)"
    by (rule those_map_cong) (use assms Some in simp)
  then show ?thesis by (simp add: Some)
qed

lemma in_cellChildren:
  "x \<in> set (case cproperties c of None \<Rightarrow> [] | Some q \<Rightarrow> propsValues q) \<Longrightarrow> x \<in> set (cellChildren c)"
  "x \<in> set (case citems c of None \<Rightarrow> [] | Some q \<Rightarrow> castArray q) \<Longrightarrow> x \<in> set (cellChildren c)"
  "x \<in> set (case coneOf c of None \<Rightarrow> [] | Some xs \<Rightarrow> xs) \<Longrightarrow> x \<in> set (cellChildren c)"
  "x \<in> set (case canyOf c of None \<Rightarrow> [] | Some xs \<Rightarrow> xs) \<Longrightarrow> x \<in> set (cellChildren c)"
  "x \<in> set (case callOf c of None \<Rightarrow> [] | Some xs \<Rightarrow> xs) \<Longrightarrow> x \<in> set (cellChildren c)"
  unfolding cellChildren_def set_append by blast+

lemma wellFormed_children:
  "wellFormed \<sigma> \<Longrightarrow> i < length \<sigma> \<Longrightarrow> x \<in> set (cellChildren (\<sigma> ! i)) \<Longrightarrow> x < length \<sigma>"
  by (auto simp: wellFormed_def list_all_iff)

lemma snapshot_keeps:
  assumes "keeps \<sigma>0 \<sigma>" and "wellFormed \<sigma>0"
  shows "x < length \<sigma>0 \<Longrightarrow> snapshot depth \<sigma> x = snapshot depth \<sigma>0 x"
proof (induction depth arbitrary: x)
  case 0
  show ?case by simp
next
  case (Suc depth)
  have len: "length \<sigma>0 \<le> length \<sigma>" using assms(1) by (simp add: keeps_def)
  have o: "objectAt \<sigma> x = Some (\<sigma>0 ! x)" "objectAt \<sigma>0 x = Some (\<sigma>0 ! x)"
    using Suc.prems len keeps_nth[OF assms(1) Suc.prems] by (simp_all add: objectAt_def)
  have ch: "snapshot depth \<sigma> y = snapshot depth \<sigma>0 y" if "y \<in> set (cellChildren (\<sigma>0 ! x))" for y
    by (rule Suc.IH) (rule wellFormed_children[OF assms(2) Suc.prems that])
  have p: "readProps (snapshot depth \<sigma>) (cproperties (\<sigma>0 ! x)) = readProps (snapshot depth \<sigma>0) (cproperties (\<sigma>0 ! x))"
    by (rule readProps_cong) (rule ch, rule in_cellChildren(1))
  have i: "readItems (snapshot depth \<sigma>) (citems (\<sigma>0 ! x)) = readItems (snapshot depth \<sigma>0) (citems (\<sigma>0 ! x))"
    by (rule readItems_cong) (rule ch, rule in_cellChildren(2))
  have o1: "readList (snapshot depth \<sigma>) (coneOf (\<sigma>0 ! x)) = readList (snapshot depth \<sigma>0) (coneOf (\<sigma>0 ! x))"
    by (rule readList_cong) (rule ch, rule in_cellChildren(3))
  have a1: "readList (snapshot depth \<sigma>) (canyOf (\<sigma>0 ! x)) = readList (snapshot depth \<sigma>0) (canyOf (\<sigma>0 ! x))"
    by (rule readList_cong) (rule ch, rule in_cellChildren(4))
  have l1: "readList (snapshot depth \<sigma>) (callOf (\<sigma>0 ! x)) = readList (snapshot depth \<sigma>0) (callOf (\<sigma>0 ! x))"
    by (rule readList_cong) (rule ch, rule in_cellChildren(5))
  have "snapshot (Suc depth) \<sigma> x
      = (case (readProps (snapshot depth \<sigma>) (cproperties (\<sigma>0 ! x)),
                 readItems (snapshot depth \<sigma>) (citems (\<sigma>0 ! x)),
                 readList (snapshot depth \<sigma>) (coneOf (\<sigma>0 ! x)),
                 readList (snapshot depth \<sigma>) (canyOf (\<sigma>0 ! x)),
                 readList (snapshot depth \<sigma>) (callOf (\<sigma>0 ! x))) of
             (Some p, Some i, Some o1, Some a1, Some l1) \<Rightarrow>
               Some (Schema (ctype (\<sigma>0 ! x)) p i (crequired (\<sigma>0 ! x)) o1 a1 l1 (cextras (\<sigma>0 ! x)))
           | _ \<Rightarrow> None)"
    unfolding snapshot.simps(2) o(1) option.case ..
  also have "\<dots> = snapshot (Suc depth) \<sigma>0 x"
    unfolding snapshot.simps(2) o(2) option.case p i o1 a1 l1 ..
  finally show ?case .
qed

text \<open>
  Claim C6, as stated. After \<open>jsonSchemaToType\<close> the caller's schema is deep-equal to its
  value before the call, also when it carries the \<open>__is_any__\<close> marker. This fails: on the
  schema \<open>{__is_any__: true}\<close> the function deletes the marker from the caller's object,
  which is then the empty schema.
\<close>

theorem jsonSchemaToType_deletes_marker:
  "fst (jsonSchemaToType \<lparr>compile = (\<lambda>\<sigma> a n. Inr []), resolveTypePath = (\<lambda>p r. []), callStackLimit = 100\<rparr>
          (Some 0) ''Res'' [Cell None None None None None None None [(''__is_any__'', JBool True)]])
     = [emptyCell]
   \<and> snapshot 1 [Cell None None None None None None None [(''__is_any__'', JBool True)]] 0
       = Some (Schema None None None None None None None [(''__is_any__'', JBool True)])
   \<and> snapshot 1 [emptyCell] 0 = Some emptySchema
   \<and> emptySchema \<noteq> Schema None None None None None None None [(''__is_any__'', JBool True)]"
  by (simp add: jsonSchemaToType_def getExtra_def emptyCell_def emptySchema_def withCellExtras_def
      objectAt_def cellAt_def)

text \<open>
  Claim C6, amended. \<open>jsonSchemaToType\<close> leaves every object that exists before the call
  as it was, and with it the schema the caller's object stands for at any depth, except
  that it deletes the \<open>__is_any__\<close> marker of a schema that carries it with a truthy
  value. What the normalization for the compiler writes, it writes to the copy that
  \<open>cloneDeep\<close> made: to objects added to the store, which the caller's object does not
  refer to. This holds whether the call returns a declaration or ends with an exception.
\<close>

theorem jsonSchemaToType_frame:
  "fst (jsonSchemaToType ext None typeName \<sigma>) = \<sigma>
   \<and> (objectAt \<sigma> a = Some c \<and> \<not> truthy (getExtra c ''__is_any__'') \<longrightarrow>
        take (length \<sigma>) (fst (jsonSchemaToType ext (Some a) typeName \<sigma>)) = \<sigma>
        \<and> (wellFormed \<sigma> \<longrightarrow>
             (\<forall>depth. \<forall>x < length \<sigma>.
                snapshot depth (fst (jsonSchemaToType ext (Some a) typeName \<sigma>)) x = snapshot depth \<sigma> x)))
   \<and> (objectAt \<sigma> a = Some c \<and> truthy (getExtra c ''__is_any__'') \<longrightarrow>
        fst (jsonSchemaToType ext (Some a) typeName \<sigma>)
          = \<sigma>[a := withCellExtras (AList.delete ''__is_any__'' (cextras c)) c])"
proof (intro conjI impI allI)
  show "fst (jsonSchemaToType ext None typeName \<sigma>) = \<sigma>"
    by (simp add: jsonSchemaToType_def)
next
  assume h: "objectAt \<sigma> a = Some c \<and> \<not> truthy (getExtra c ''__is_any__'')"
  then have "keeps \<sigma> (fst (jsonSchemaToType ext (Some a) typeName \<sigma>))"
    using jsonSchemaToType_keeps[of \<sigma> a ext typeName] by (simp add: cellAt_objectAt)
  then show "take (length \<sigma>) (fst (jsonSchemaToType ext (Some a) typeName \<sigma>)) = \<sigma>"
    by (simp add: keeps_def)
next
  fix depth x
  assume h: "objectAt \<sigma> a = Some c \<and> \<not> truthy (getExtra c ''__is_any__'')"
    and w: "wellFormed \<sigma>" and x: "x < length \<sigma>"
  from h have "keeps \<sigma> (fst (jsonSchemaToType ext (Some a) typeName \<sigma>))"
    using jsonSchemaToType_keeps[of \<sigma> a ext typeName] by (simp add: cellAt_objectAt)
  then show "snapshot depth (fst (jsonSchemaToType ext (Some a) typeName \<sigma>)) x = snapshot depth \<sigma> x"
    using w x by (rule snapshot_keeps)
next
  assume h: "objectAt \<sigma> a = Some c \<and> truthy (getExtra c ''__is_any__'')"
  then have ne: "\<not> isEmpty \<sigma> (Some a)" using marked_not_empty[of c] by simp
  have c: "cellAt \<sigma> a = c" using h by (simp add: cellAt_objectAt)
  have t: "truthy (getExtra c ''__is_any__'')" using h by simp
  show "fst (jsonSchemaToType ext (Some a) typeName \<sigma>)
          = \<sigma>[a := withCellExtras (AList.delete ''__is_any__'' (cextras c)) c]"
    unfolding jsonSchemaToType_def option.sel c using ne t by (simp only: if_True if_False fst_conv)
qed

theorem jsonSchemaToType_frame_witness:
  "objectAt
     [Cell (Some (One (TName ''string''))) None None None None None None [(''title'', JStr ''&Foo''), (''name'', JStr ''n'')],
      Cell (Some (One (TName ''object''))) (Some (PropsArray [0])) None None None None None [(''description'', JStr ''d''), (''default'', JNum 1)]] 1
     = Some (Cell (Some (One (TName ''object''))) (Some (PropsArray [0])) None None None None None [(''description'', JStr ''d''), (''default'', JNum 1)])
   \<and> \<not> truthy (getExtra (Cell (Some (One (TName ''object''))) (Some (PropsArray [0])) None None None None None [(''description'', JStr ''d''), (''default'', JNum 1)]) ''__is_any__'')
   \<and> wellFormed
     [Cell (Some (One (TName ''string''))) None None None None None None [(''title'', JStr ''&Foo''), (''name'', JStr ''n'')],
      Cell (Some (One (TName ''object''))) (Some (PropsArray [0])) None None None None None [(''description'', JStr ''d''), (''default'', JNum 1)]]
   \<and> fst (jsonSchemaToType \<lparr>compile = (\<lambda>\<sigma> a n. Inr (''export interface '' @ n @ '' {}'')), resolveTypePath = (\<lambda>p r. [r]), callStackLimit = 10\<rparr> (Some 1) ''Req''
     [Cell (Some (One (TName ''string''))) None None None None None None [(''title'', JStr ''&Foo''), (''name'', JStr ''n'')],
      Cell (Some (One (TName ''object''))) (Some (PropsArray [0])) None None None None None [(''description'', JStr ''d''), (''default'', JNum 1)]])
     = [Cell (Some (One (TName ''string''))) None None None None None None [(''title'', JStr ''&Foo''), (''name'', JStr ''n'')],
      Cell (Some (One (TName ''object''))) (Some (PropsArray [0])) None None None None None [(''description'', JStr ''d''), (''default'', JNum 1)]]
       @ [Cell (Some (One (TName ''object''))) (Some (PropsObject [(''n'', 3)])) None None None None None [(''additionalProperties'', JBool False)],
          Cell (Some (One (TName ''string''))) None None None None None None [(''name'', JStr ''n''), (''tsType'', JStr (''NonNullable<Req['' @ jsonStringify ''Foo'' @ '']>''))]]
   \<and> snapshot 2 (fst (jsonSchemaToType \<lparr>compile = (\<lambda>\<sigma> a n. Inr (''export interface '' @ n @ '' {}'')), resolveTypePath = (\<lambda>p r. [r]), callStackLimit = 10\<rparr> (Some 1) ''Req''
     [Cell (Some (One (TName ''string''))) None None None None None None [(''title'', JStr ''&Foo''), (''name'', JStr ''n'')],
      Cell (Some (One (TName ''object''))) (Some (PropsArray [0])) None None None None None [(''description'', JStr ''d''), (''default'', JNum 1)]])) 1
     = snapshot 2
     [Cell (Some (One (TName ''string''))) None None None None None None [(''title'', JStr ''&Foo''), (''name'', JStr ''n'')],
      Cell (Some (One (TName ''object''))) (Some (PropsArray [0])) None None None None None [(''description'', JStr ''d''), (''default'', JNum 1)]] 1
   \<and> snapshot 2
     [Cell (Some (One (TName ''string''))) None None None None None None [(''title'', JStr ''&Foo''), (''name'', JStr ''n'')],
      Cell (Some (One (TName ''object''))) (Some (PropsArray [0])) None None None None None [(''description'', JStr ''d''), (''default'', JNum 1)]] 1
     = Some (Schema (Some (One (TName ''object'')))
         (Some (PropsArray [Schema (Some (One (TName ''string''))) None None None None None None
                              [(''title'', JStr ''&Foo''), (''name'', JStr ''n'')]]))
         None None None None None [(''description'', JStr ''d''), (''default'', JNum 1)])
   \<and> objectAt [Cell None None None None None None None [(''__is_any__'', JBool True)]] 0 = Some (Cell None None None None None None None [(''__is_any__'', JBool True)])
   \<and> truthy (getExtra (Cell None None None None None None None [(''__is_any__'', JBool True)]) ''__is_any__'')
   \<and> fst (jsonSchemaToType \<lparr>compile = (\<lambda>\<sigma> a n. Inr (''export interface '' @ n @ '' {}'')), resolveTypePath = (\<lambda>p r. [r]), callStackLimit = 10\<rparr> (Some 0) ''Res'' [Cell None None None None None None None [(''__is_any__'', JBool True)]]) = [emptyCell]"
proof -
  let ?ext = "\<lparr>compile = (\<lambda>\<sigma> a n. Inr (''export interface '' @ n @ '' {}'')), resolveTypePath = (\<lambda>p r. [r]), callStackLimit = 10\<rparr>"
  let ?c = "Cell (Some (One (TName ''object''))) (Some (PropsArray [0])) None None None None None [(''description'', JStr ''d''), (''default'', JNum 1)]"
  let ?s = "[Cell (Some (One (TName ''string''))) None None None None None None [(''title'', JStr ''&Foo''), (''name'', JStr ''n'')],
      Cell (Some (One (TName ''object''))) (Some (PropsArray [0])) None None None None None [(''description'', JStr ''d''), (''default'', JNum 1)]]"
  let ?m = "Cell None None None None None None None [(''__is_any__'', JBool True)]"
  have h: "objectAt ?s 1 = Some ?c \<and> \<not> truthy (getExtra ?c ''__is_any__'')"
    by (simp add: objectAt_def getExtra_def)
  have w: "wellFormed ?s" by (simp add: wellFormed_def cellChildren_def)
  have run: "fst (jsonSchemaToType ?ext (Some 1) ''Req'' ?s)
     = ?s @ [Cell (Some (One (TName ''object''))) (Some (PropsObject [(''n'', 3)])) None None None None None [(''additionalProperties'', JBool False)],
          Cell (Some (One (TName ''string''))) None None None None None None [(''name'', JStr ''n''), (''tsType'', JStr (''NonNullable<Req['' @ jsonStringify ''Foo'' @ '']>''))]]"
    by code_simp
  have before: "snapshot 2 ?s 1
     = Some (Schema (Some (One (TName ''object'')))
         (Some (PropsArray [Schema (Some (One (TName ''string''))) None None None None None None
                              [(''title'', JStr ''&Foo''), (''name'', JStr ''n'')]]))
         None None None None None [(''description'', JStr ''d''), (''default'', JNum 1)])"
    by code_simp
  have hm: "objectAt [?m] 0 = Some ?m \<and> truthy (getExtra ?m ''__is_any__'')"
    by (simp add: objectAt_def getExtra_def)
  note keep = jsonSchemaToType_frame[of ?ext "''Req''" ?s 1 ?c, THEN conjunct2, THEN conjunct1, rule_format, OF h]
  have deep: "snapshot 2 (fst (jsonSchemaToType ?ext (Some 1) ''Req'' ?s)) 1 = snapshot 2 ?s 1"
    using keep[THEN conjunct2, rule_format, OF w, of 1 2] by simp
  have marker: "fst (jsonSchemaToType ?ext (Some 0) ''Res'' [?m]) = [emptyCell]"
    using jsonSchemaToType_frame[of ?ext "''Res''" "[?m]" 0 ?m, THEN conjunct2, THEN conjunct2, rule_format, OF hm]
    by (simp add: withCellExtras_def emptyCell_def)
  from h w run deep before hm marker show ?thesis by blast
qed

section \<open>Properties of \<open>getRequestDataJsonSchema\<close>\<close>




section \<open>Properties of the type table\<close>

lemma map_of_rev_last:
  "map_of (rev xs) l = (case filter (\<lambda>(k, v). k = l) xs of [] \<Rightarrow> None | es \<Rightarrow> Some (snd (last es)))"
proof (induction xs rule: rev_induct)
  case Nil
  show ?case by simp
next
  case (snoc x xs)
  obtain k v where x: "x = (k, v)" by (cases x)
  show ?case using snoc by (auto simp: x map_add_def split: list.splits option.splits)
qed

lemma map_of_update_fold:
  "map_of (foldl (\<lambda>res (k, v). AList.update (f k) (g v) res) init xs)
     = map_of init ++ map_of (rev (map (\<lambda>(k, v). (f k, g v)) xs))"
proof (induction xs arbitrary: init)
  case Nil
  show ?case by simp
next
  case (Cons x xs)
  obtain k v where x: "x = (k, v)" by (cases x)
  show ?case
    unfolding x using Cons[of "AList.update (f k) (g v) init"]
    by (simp add: update_conv' map_add_def fun_eq_iff split: option.splits)
qed

lemma filter_map_key:
  "filter (\<lambda>(k, v). k = l) (map (\<lambda>(k, v). (f k, g v)) xs)
     = map (\<lambda>(k, v). (f k, g v)) (filter (\<lambda>(k, v). f k = l) xs)"
  by (induction xs) auto

lemma last_entry_map:
  "(case map (\<lambda>(k, v). (f k, v)) es of [] \<Rightarrow> None | xs \<Rightarrow> Some (snd (last xs)))
     = (case es of [] \<Rightarrow> None | xs \<Rightarrow> Some (snd (last xs)))"
proof (cases es)
  case Nil
  then show ?thesis by simp
next
  case (Cons e es')
  then have "es \<noteq> []" by simp
  then have "snd (last (map (\<lambda>(k, v). (f k, v)) es)) = snd (last es)"
    by (simp add: last_map case_prod_beta)
  then show ?thesis using Cons by (simp split: list.splits)
qed

lemma map_of_mapKeysLower:
  "map_of (mapKeysLower m) (toLowerCase t) = customTargetFor m t"
proof -
  have "map_of (mapKeysLower m) (toLowerCase t)
      = map_of (rev (map (\<lambda>(k, v). (toLowerCase k, v)) m)) (toLowerCase t)"
    unfolding mapKeysLower_def using map_of_update_fold[of toLowerCase "\<lambda>v. v" "[]" m] by simp
  also have "\<dots> = customTargetFor m t"
    unfolding map_of_rev_last customTargetFor_def filter_map_key[of "toLowerCase t" toLowerCase "\<lambda>v. v"]
    by (rule last_entry_map)
  finally show ?thesis .
qed

lemma distinct_update_fold:
  "distinct (map fst init) \<Longrightarrow>
   distinct (map fst (foldl (\<lambda>res (k, v). AList.update (f k) (g v) res) init xs))"
proof (induction xs arbitrary: init)
  case Nil
  then show ?case by simp
next
  case (Cons x xs)
  obtain k v where x: "x = (k, v)" by (cases x)
  show ?case unfolding x using Cons.IH[of "AList.update (f k) (g v) init"] Cons.prems
    by (simp add: distinct_update)
qed

lemma map_of_rev_distinct: "distinct (map fst xs) \<Longrightarrow> map_of (rev xs) = map_of xs"
proof (induction xs)
  case Nil
  show ?case by simp
next
  case (Cons x xs)
  then have "fst x \<notin> dom (map_of xs)" by (auto simp: dom_map_of_conv_image_fst)
  then show ?case using Cons
    by (cases x) (auto simp: map_add_def fun_eq_iff split: option.splits)
qed

lemma map_of_typeMapping:
  "map_of (typeMapping m) (toLowerCase t)
     = (case customTargetFor m t of
          Some v \<Rightarrow> Some (typeNameText v)
        | None \<Rightarrow> map_of builtinTypeMapping (toLowerCase t))"
proof -
  have d: "distinct (map fst (mapKeysLower m))"
    unfolding mapKeysLower_def using distinct_update_fold[of "[]" toLowerCase "\<lambda>v. v" m] by simp
  have "map_of (typeMapping m)
      = map_of builtinTypeMapping ++ map_of (rev (map (\<lambda>(k, v). (k, typeNameText v)) (mapKeysLower m)))"
    unfolding typeMapping_def using map_of_update_fold[of "\<lambda>k. k" typeNameText builtinTypeMapping "mapKeysLower m"]
    by simp
  also have "rev (map (\<lambda>(k, v). (k, typeNameText v)) (mapKeysLower m))
      = map (\<lambda>(k, v). (k, typeNameText v)) (rev (mapKeysLower m))"
    by (simp add: rev_map)
  also have "map_of (map (\<lambda>(k, v). (k, typeNameText v)) (rev (mapKeysLower m)))
      = map_option typeNameText \<circ> map_of (rev (mapKeysLower m))"
    by (simp add: map_of_map)
  finally show ?thesis
    by (simp add: map_add_def map_of_rev_distinct[OF d] map_of_mapKeysLower split: option.splits)
qed

lemma typeNameText_nonempty [simp]: "typeNameText v \<noteq> []"
  by (cases v) auto

lemma stype_descend: "descend f currentPath js = Inr js' \<Longrightarrow> stype js' = stype js"
  by (auto simp: descend_def andThen_def split: sum.splits)

lemma stype_repairProperties [simp]: "stype (repairProperties js) = stype js"
  by (auto simp: repairProperties_def withProperties_def split: option.splits props.splits)

lemma stype_processJsonSchema:
  assumes "processJsonSchema m js = Inr js'" "stype js = Some (One (TName t))" "t \<noteq> []"
  shows "\<exists>x. stype js' = Some (One x) \<and> normalizeType (typeMapping m) (TName t) = Inr x"
proof -
  from assms(1) obtain n where n: "processNode m (repairProperties js) = Inr n"
    and d: "descend (\<lambda>currentPath item. processJsonSchema m item) [] n = Inr js'"
    by (auto simp: processJsonSchema.simps[of m js] andThen_def split: sum.splits)
  have "stype (repairProperties js) = Some (One (TName t))" using assms(2) by simp
  with n assms(3) have "\<exists>x. stype n = Some (One x) \<and> normalizeType (typeMapping m) (TName t) = Inr x"
    by (auto simp: processNode_def Let_def andThen_def split: sum.splits option.splits props.splits)
  then show ?thesis using stype_descend[OF d] by simp
qed

lemma normalizeType_custom:
  "customTargetFor m t = Some v \<Longrightarrow> normalizeType (typeMapping m) (TName t) = Inr (TName (typeNameText v))"
  by (simp add: getProp_def map_of_typeMapping)

lemma normalizeType_builtin:
  "customTargetFor m t = None \<Longrightarrow> map_of builtinTypeMapping (toLowerCase t) = Some b \<Longrightarrow> b \<noteq> [] \<Longrightarrow>
   normalizeType (typeMapping m) (TName t) = Inr (TName b)"
  by (simp add: getProp_def map_of_typeMapping)

lemma normalizeType_other:
  "customTargetFor m t = None \<Longrightarrow> map_of builtinTypeMapping (toLowerCase t) = None \<Longrightarrow>
   toLowerCase t \<notin> set objectPrototypeMembers \<Longrightarrow>
   normalizeType (typeMapping m) (TName t) = Inr (TName (toLowerCase t))"
  by (simp add: getProp_def map_of_typeMapping)

section \<open>Idempotence of the normalizer\<close>

lemma lowerChar_idem [simp]: "lowerChar (lowerChar c) = lowerChar c"
proof (cases "CHR ''A'' \<le> c \<and> c \<le> CHR ''Z''")
  case False
  then have "lowerChar c = c" by (auto simp: lowerChar_def)
  then show ?thesis by simp
next
  case True
  define d where "d = char_of (of_char c + (32::nat))"
  have l: "lowerChar c = d" using True by (simp add: lowerChar_def d_def)
  from True have "65 \<le> (of_char c :: nat)" "(of_char c :: nat) \<le> 90"
    by (simp_all add: less_eq_char_def)
  then have "\<not> (CHR ''A'' \<le> d \<and> d \<le> CHR ''Z'')"
    by (simp add: less_eq_char_def d_def)
  then have "lowerChar d = d" by (auto simp: lowerChar_def)
  then show ?thesis by (simp add: l)
qed

lemma toLowerCase_idem [simp]: "toLowerCase (toLowerCase s) = toLowerCase s"
  by (simp add: toLowerCase_def)

lemma trim_idem [simp]: "trim (trim s) = trim s"
proof -
  let ?d = "dropWhile isWhitespace s"
  let ?e = "dropWhile isWhitespace (rev ?d)"
  have t: "trim s = rev ?e" by (simp add: trim_def)
  show ?thesis
  proof (cases "?e = []")
    case True
    then have "trim s = []" using t by simp
    moreover have "trim [] = []" by (simp add: trim_def)
    ultimately show ?thesis by simp
  next
    case False
    then have he: "\<not> isWhitespace (hd ?e)" using hd_dropWhile by blast
    have "?d \<noteq> []"
    proof
      assume a: "?d = []"
      have "?e = []" unfolding a by simp
      with False show False by blast
    qed
    then have hd: "\<not> isWhitespace (hd ?d)" using hd_dropWhile by blast
    obtain ys where "rev ?d = takeWhile isWhitespace (rev ?d) @ ?e" by simp
    then have "?d = rev ?e @ rev (takeWhile isWhitespace (rev ?d))"
      by (metis rev_append rev_rev_ident)
    then have "hd ?d = hd (rev ?e)" using False by (metis hd_append2 rev_is_Nil_conv)
    then have "\<not> isWhitespace (hd (rev ?e))" using hd by simp
    then have 1: "dropWhile isWhitespace (rev ?e) = rev ?e"
      using False by (cases "rev ?e") auto
    have 2: "dropWhile isWhitespace ?e = ?e"
      using he False by (cases ?e) auto
    show ?thesis unfolding t
      by (simp add: trim_def 1 2)
  qed
qed

subsection \<open>Trimming the property names\<close>

lemma filter_update_out:
  "\<not> P k \<Longrightarrow> filter (\<lambda>e. P (fst e)) (AList.update k v al) = filter (\<lambda>e. P (fst e)) al"
  by (induction al) auto

lemma filter_update_in:
  "P k \<Longrightarrow> filter (\<lambda>e. P (fst e)) (AList.update k v al) = AList.update k v (filter (\<lambda>e. P (fst e)) al)"
  by (induction al) auto

lemma filter_delete:
  "filter (\<lambda>e. P (fst e)) (AList.delete k al) = filter (\<lambda>e. P (fst e) \<and> fst e \<noteq> k) al"
  by (induction al) auto

lemma update_other_entry: "e \<in> set (AList.update k v al) \<Longrightarrow> fst e \<noteq> k \<Longrightarrow> e \<in> set al"
  by (induction al) (auto split: if_splits)

lemma keys_update: "fst ` set (AList.update k v al) = insert k (fst ` set al)"
  using dom_update[of k v al] by simp

lemma keys_delete: "fst ` set (AList.delete k al) = fst ` set al - {k}"
  by (induction al) auto

lemma trimInv_step:
  assumes "trimInv ps (k # ks)"
  shows "trimInv (trimStep ps k) ks"
proof (cases "map_of ps k")
  case None
  then have nk: "k \<notin> fst ` set ps" by (simp add: map_of_eq_None_iff)
  then have "filter (\<lambda>e. fst e \<notin> set ks) ps = filter (\<lambda>e. fst e \<notin> set (k # ks)) ps"
    by (intro filter_cong) auto
  then show ?thesis using assms None nk by (auto simp: trimInv_def trimStep_def)
next
  case (Some v)
  let ?al = "AList.delete k ps"
  have f: "filter (\<lambda>e. fst e \<notin> set ks) ?al = filter (\<lambda>e. fst e \<notin> set (k # ks)) ps"
    unfolding filter_delete[of "\<lambda>x. x \<notin> set ks" k ps] by (intro filter_cong) auto
  have d: "distinct (map fst (filter (\<lambda>e. fst e \<notin> set ks) ?al))"
    using assms unfolding f by (simp add: trimInv_def)
  have g: "\<forall>e \<in> set ?al. fst e \<notin> set ks \<longrightarrow> trimmedKey (fst e)"
  proof (intro ballI impI)
    fix e assume e: "e \<in> set ?al" "fst e \<notin> set ks"
    then have "fst e \<noteq> k" using keys_delete[of k ps] by (metis DiffE imageI singletonI)
    moreover have "e \<in> set ps" using e(1) by (auto simp: AList.delete_eq)
    ultimately show "trimmedKey (fst e)" using assms e(2) by (auto simp: trimInv_def)
  qed
  show ?thesis
  proof (cases "trim k = ''__proto__''")
    case True
    then have "trimStep ps k = ?al" using Some by (simp add: trimStep_def setProp_def)
    then show ?thesis using d g by (simp add: trimInv_def)
  next
    case False
    then have s: "trimStep ps k = AList.update (trim k) v ?al"
      using Some by (simp add: trimStep_def setProp_def)
    have tk: "trimmedKey (trim k)" using False by (simp add: trimmedKey_def)
    have d': "distinct (map fst (filter (\<lambda>e. fst e \<notin> set ks) (AList.update (trim k) v ?al)))"
    proof (cases "trim k \<in> set ks")
      case True
      then show ?thesis
        using d filter_update_out[of "\<lambda>x. x \<notin> set ks" "trim k" v ?al] by simp
    next
      case False
      then show ?thesis
        using d filter_update_in[of "\<lambda>x. x \<notin> set ks" "trim k" v ?al] by (simp add: distinct_update)
    qed
    have g': "\<forall>e \<in> set (AList.update (trim k) v ?al). fst e \<notin> set ks \<longrightarrow> trimmedKey (fst e)"
    proof (intro ballI impI)
      fix e assume e: "e \<in> set (AList.update (trim k) v ?al)" "fst e \<notin> set ks"
      show "trimmedKey (fst e)"
      proof (cases "fst e = trim k")
        case True
        then show ?thesis using tk by simp
      next
        case False
        then have "e \<in> set ?al" using e(1) by (rule update_other_entry[rotated])
        then show ?thesis using g e(2) by blast
      qed
    qed
    show ?thesis unfolding s using d' g' by (simp add: trimInv_def)
  qed
qed

lemma trimInv_fold: "trimInv ps ks \<Longrightarrow> trimInv (foldl trimStep ps ks) []"
  by (induction ks arbitrary: ps) (auto dest: trimInv_step)

lemma trimKeys_keys:
  "distinct (map fst (trimKeys ps)) \<and> (\<forall>k \<in> fst ` set (trimKeys ps). trimmedKey k)"
proof -
  have "trimInv ps (map fst ps)" by (auto simp: trimInv_def)
  from trimInv_fold[OF this] show ?thesis
    by (auto simp: trimInv_def trimKeys_trimStep)
qed

lemma update_new_key: "k \<notin> fst ` set al \<Longrightarrow> AList.update k v al = al @ [(k, v)]"
  by (induction al) auto

lemma trimFold_settled:
  assumes "distinct (map fst (rest @ done))" "\<forall>k \<in> fst ` set rest. trimmedKey k"
  shows "foldl trimStep (rest @ done) (map fst rest) = done @ rest"
  using assms
proof (induction rest arbitrary: "done")
  case Nil
  then show ?case by simp
next
  case (Cons e rest)
  obtain k v where e: "e = (k, v)" by (cases e)
  have nk: "k \<notin> fst ` set (rest @ done)" using Cons.prems(1) by (auto simp: e)
  have tk: "trim k = k" "k \<noteq> ''__proto__''" using Cons.prems(2) by (auto simp: e trimmedKey_def)
  have "trimStep ((k, v) # rest @ done) k = AList.update k v (rest @ done)"
    using nk tk by (simp add: trimStep_def setProp_def)
  also have "\<dots> = rest @ (done @ [(k, v)])" using update_new_key[OF nk] by simp
  finally have step: "trimStep (e # rest @ done) k = rest @ (done @ [(k, v)])" by (simp add: e)
  have "distinct (map fst (rest @ (done @ [(k, v)])))" using Cons.prems(1) by (auto simp: e)
  moreover have "\<forall>k \<in> fst ` set rest. trimmedKey k" using Cons.prems(2) by simp
  ultimately have "foldl trimStep (rest @ (done @ [(k, v)])) (map fst rest) = (done @ [(k, v)]) @ rest"
    by (rule Cons.IH)
  then show ?case using step by (simp add: e)
qed

lemma trimKeys_settled:
  "distinct (map fst qs) \<Longrightarrow> \<forall>k \<in> fst ` set qs. trimmedKey k \<Longrightarrow> trimKeys qs = qs"
  using trimFold_settled[of qs "[]"] by (simp add: trimKeys_trimStep)

subsection \<open>The traversal of the children\<close>

lemma mapResult_Inr: "(mapResult f xs = Inr ys) = list_all2 (\<lambda>x y. f x = Inr y) xs ys"
proof (induction xs arbitrary: ys)
  case Nil
  show ?case by auto
next
  case (Cons x xs)
  show ?case
  proof (cases "mapResult f xs")
    case (Inl e)
    then have "\<And>zs. \<not> list_all2 (\<lambda>x y. f x = Inr y) xs zs" using Cons.IH by simp
    then show ?thesis using Inl by (cases ys) (auto simp: andThen_def split: sum.splits)
  next
    case (Inr zs)
    then have "\<And>zs'. list_all2 (\<lambda>x y. f x = Inr y) xs zs' = (zs' = zs)"
      unfolding Cons.IH[symmetric] by auto
    then show ?thesis using Inr by (cases ys) (auto simp: andThen_def split: sum.splits)
  qed
qed

lemma mapResult_same: "(\<And>x. x \<in> set xs \<Longrightarrow> f x = Inr x) \<Longrightarrow> mapResult f xs = Inr xs"
  by (simp add: mapResult_Inr list_all2_same)

lemma mapResult_success:
  "(\<And>x. x \<in> set xs \<Longrightarrow> \<exists>y. f x = Inr y) \<Longrightarrow> \<exists>ys. mapResult f xs = Inr ys"
proof (induction xs)
  case Nil
  show ?case by simp
next
  case (Cons x xs)
  then obtain y ys where "f x = Inr y" "mapResult f xs = Inr ys" by (meson list.set_intros)
  then show ?case by (simp add: andThen_def)
qed

lemma list_all2_source: "list_all2 P xs ys \<Longrightarrow> y \<in> set ys \<Longrightarrow> \<exists>x \<in> set xs. P x y"
  by (induction rule: list_all2_induct) auto

lemma children_values:
  "children js = propsValuesOpt (properties js) \<union> itemsValuesOpt (items js)
     \<union> listValuesOpt (oneOf js) \<union> listValuesOpt (anyOf js) \<union> listValuesOpt (allOf js)"
  by (simp add: children_eq propsValuesOpt_def itemsValuesOpt_def listValuesOpt_def)

lemma traverseProperties_Inr:
  assumes "traverseProperties f cp p = Inr p'"
  shows "(p' = None) = (p = None)"
    and "isArrayForm p' = isArrayForm p"
    and "\<And>ps'. p' = Some (PropsObject ps') \<Longrightarrow> \<exists>ps. p = Some (PropsObject ps) \<and> map fst ps' = map fst ps"
    and "\<And>c'. c' \<in> propsValuesOpt p' \<Longrightarrow> \<exists>c \<in> propsValuesOpt p. \<exists>cp'. f cp' c = Inr c'"
proof -
  have "(p' = None) = (p = None) \<and> isArrayForm p' = isArrayForm p
    \<and> (\<forall>ps'. p' = Some (PropsObject ps') \<longrightarrow> (\<exists>ps. p = Some (PropsObject ps) \<and> map fst ps' = map fst ps))
    \<and> (\<forall>c' \<in> propsValuesOpt p'. \<exists>c \<in> propsValuesOpt p. \<exists>cp'. f cp' c = Inr c')"
  proof (cases p)
    case None
    then show ?thesis using assms by (auto simp: propsValuesOpt_def)
  next
    case (Some q)
    show ?thesis
    proof (cases q)
      case (PropsObject ps)
      from assms obtain ps' where p': "p' = Some (PropsObject ps')"
        and l: "list_all2 (\<lambda>x y. (case x of (key, item) \<Rightarrow>
                  andThen (f (cp @ [Key key]) item) (\<lambda>item'. Inr (key, item'))) = Inr y) ps ps'"
        unfolding Some PropsObject by (auto simp: andThen_def mapResult_Inr split: sum.splits)
      have l': "list_all2 (\<lambda>x y. fst y = fst x \<and> f (cp @ [Key (fst x)]) (snd x) = Inr (snd y)) ps ps'"
        using l by (rule list_all2_mono) (auto simp: andThen_def split: sum.splits prod.splits)
      have keys: "map fst ps' = map fst ps"
        using l' by (induction rule: list_all2_induct) auto
      have vals: "\<forall>c' \<in> snd ` set ps'. \<exists>c \<in> snd ` set ps. \<exists>cp'. f cp' c = Inr c'"
      proof
        fix c' assume "c' \<in> snd ` set ps'"
        then obtain y where y: "y \<in> set ps'" "c' = snd y" by auto
        from list_all2_source[OF l' y(1)] obtain x where "x \<in> set ps"
          "f (cp @ [Key (fst x)]) (snd x) = Inr (snd y)" by auto
        then show "\<exists>c \<in> snd ` set ps. \<exists>cp'. f cp' c = Inr c'" using y(2) by auto
      qed
      show ?thesis
        using keys vals by (simp add: p' Some PropsObject propsValuesOpt_def set_props_PropsObject del: props.set)
    next
      case (PropsArray xs)
      from assms obtain xs' where p': "p' = Some (PropsArray xs')"
        and l: "list_all2 (\<lambda>x y. (case x of (n, item) \<Rightarrow> f (cp @ [Key (natToString n)]) item) = Inr y)
                  (enumerate 0 xs) xs'"
        unfolding Some PropsArray by (auto simp: andThen_def mapResult_Inr split: sum.splits)
      have vals: "\<forall>c' \<in> set xs'. \<exists>c \<in> set xs. \<exists>cp'. f cp' c = Inr c'"
      proof
        fix c' assume "c' \<in> set xs'"
        from list_all2_source[OF l this] obtain x where "x \<in> set (enumerate 0 xs)"
          "f (cp @ [Key (natToString (fst x))]) (snd x) = Inr c'" by (auto simp: case_prod_beta)
        then show "\<exists>c \<in> set xs. \<exists>cp'. f cp' c = Inr c'"
          using nth_mem by (fastforce simp: in_set_enumerate_eq)
      qed
      show ?thesis using vals by (simp add: p' Some PropsArray propsValuesOpt_def)
    qed
  qed
  then show "(p' = None) = (p = None)"
    and "isArrayForm p' = isArrayForm p"
    and "\<And>ps'. p' = Some (PropsObject ps') \<Longrightarrow> \<exists>ps. p = Some (PropsObject ps) \<and> map fst ps' = map fst ps"
    and "\<And>c'. c' \<in> propsValuesOpt p' \<Longrightarrow> \<exists>c \<in> propsValuesOpt p. \<exists>cp'. f cp' c = Inr c'"
    by blast+
qed

lemma traverseItems_Inr:
  assumes "traverseItems f cp i = Inr i'"
  shows "\<And>x xs. i' = Some (More (x # xs)) \<Longrightarrow> \<exists>y ys. i = Some (More (y # ys))"
    and "\<And>c'. c' \<in> itemsValuesOpt i' \<Longrightarrow> \<exists>c \<in> itemsValuesOpt i. \<exists>cp'. f cp' c = Inr c'"
proof -
  have "(\<forall>x xs. i' = Some (More (x # xs)) \<longrightarrow> (\<exists>y ys. i = Some (More (y # ys))))
    \<and> (\<forall>c' \<in> itemsValuesOpt i'. \<exists>c \<in> itemsValuesOpt i. \<exists>cp'. f cp' c = Inr c')"
  proof (cases i)
    case None
    then show ?thesis using assms by (auto simp: itemsValuesOpt_def)
  next
    case (Some q)
    show ?thesis
    proof (cases q)
      case (One c)
      then show ?thesis using assms unfolding Some
        by (auto simp: andThen_def itemsValuesOpt_def split: sum.splits)
    next
      case (More xs)
      from assms obtain xs' where i': "i' = Some (More xs')"
        and l: "list_all2 (\<lambda>x y. (case x of (n, item) \<Rightarrow> f (cp @ [Index n]) item) = Inr y)
                  (enumerate 0 xs) xs'"
        unfolding Some More by (auto simp: andThen_def mapResult_Inr split: sum.splits)
      have len: "length xs' = length xs" using list_all2_lengthD[OF l] by simp
      have vals: "\<forall>c' \<in> set xs'. \<exists>c \<in> set xs. \<exists>cp'. f cp' c = Inr c'"
      proof
        fix c' assume "c' \<in> set xs'"
        from list_all2_source[OF l this] obtain x where "x \<in> set (enumerate 0 xs)"
          "f (cp @ [Index (fst x)]) (snd x) = Inr c'" by (auto simp: case_prod_beta)
        then show "\<exists>c \<in> set xs. \<exists>cp'. f cp' c = Inr c'"
          using nth_mem by (fastforce simp: in_set_enumerate_eq)
      qed
      have shape: "\<forall>x ys. xs' = x # ys \<longrightarrow> (\<exists>y zs. xs = y # zs)"
        using len by (cases xs) auto
      show ?thesis using vals shape by (simp add: i' Some More itemsValuesOpt_def)
    qed
  qed
  then show "\<And>x xs. i' = Some (More (x # xs)) \<Longrightarrow> \<exists>y ys. i = Some (More (y # ys))"
    and "\<And>c'. c' \<in> itemsValuesOpt i' \<Longrightarrow> \<exists>c \<in> itemsValuesOpt i. \<exists>cp'. f cp' c = Inr c'"
    by blast+
qed

lemma traverseAll_Inr:
  assumes "traverseAll f cp l = Inr l'"
  shows "\<And>c'. c' \<in> listValuesOpt l' \<Longrightarrow> \<exists>c \<in> listValuesOpt l. \<exists>cp'. f cp' c = Inr c'"
proof -
  fix c' assume c: "c' \<in> listValuesOpt l'"
  show "\<exists>c \<in> listValuesOpt l. \<exists>cp'. f cp' c = Inr c'"
  proof (cases l)
    case None
    then show ?thesis using assms c by (auto simp: listValuesOpt_def)
  next
    case (Some xs)
    from assms obtain xs' where l': "l' = Some xs'" and a: "list_all2 (\<lambda>x y. f cp x = Inr y) xs xs'"
      unfolding Some by (auto simp: andThen_def mapResult_Inr split: sum.splits)
    from c have "c' \<in> set xs'" by (simp add: l' listValuesOpt_def)
    from list_all2_source[OF a this] show ?thesis by (auto simp: Some listValuesOpt_def)
  qed
qed

lemma descend_Inr:
  assumes "descend f cp n = Inr js1"
  obtains p i o1 a1 l1 where
    "traverseProperties f cp (properties n) = Inr p"
    "traverseItems f cp (items n) = Inr i"
    "traverseAll f cp (oneOf n) = Inr o1"
    "traverseAll f cp (anyOf n) = Inr a1"
    "traverseAll f cp (allOf n) = Inr l1"
    "js1 = Schema (stype n) p i (required n) o1 a1 l1 (extras n)"
  using assms by (auto simp: descend_def andThen_def split: sum.splits)

lemma descend_children:
  assumes "descend f cp n = Inr js1" "c' \<in> children js1"
  shows "\<exists>c \<in> children n. \<exists>cp'. f cp' c = Inr c'"
proof -
  from assms(1) obtain p i o1 a1 l1 where t:
    "traverseProperties f cp (properties n) = Inr p"
    "traverseItems f cp (items n) = Inr i"
    "traverseAll f cp (oneOf n) = Inr o1"
    "traverseAll f cp (anyOf n) = Inr a1"
    "traverseAll f cp (allOf n) = Inr l1"
    and js1: "js1 = Schema (stype n) p i (required n) o1 a1 l1 (extras n)"
    by (rule descend_Inr)
  from assms(2) have "c' \<in> propsValuesOpt p \<or> c' \<in> itemsValuesOpt i
      \<or> c' \<in> listValuesOpt o1 \<or> c' \<in> listValuesOpt a1 \<or> c' \<in> listValuesOpt l1"
    by (auto simp: children_values js1)
  then show ?thesis
    using traverseProperties_Inr(4)[OF t(1)] traverseItems_Inr(2)[OF t(2)]
      traverseAll_Inr[OF t(3)] traverseAll_Inr[OF t(4)] traverseAll_Inr[OF t(5)]
    unfolding children_values[of n] by blast
qed

lemma traverseProperties_same:
  "(\<And>c cp'. c \<in> propsValuesOpt p \<Longrightarrow> f cp' c = Inr c) \<Longrightarrow> traverseProperties f cp p = Inr p"
proof (cases p)
  case None
  then show ?thesis by simp
next
  case (Some q)
  assume h: "\<And>c cp'. c \<in> propsValuesOpt p \<Longrightarrow> f cp' c = Inr c"
  show ?thesis
  proof (cases q)
    case (PropsObject ps)
    have "mapResult (\<lambda>(key, item). andThen (f (cp @ [Key key]) item) (\<lambda>item'. Inr (key, item'))) ps = Inr ps"
      by (rule mapResult_same)
        (use h in \<open>force simp: Some PropsObject propsValuesOpt_def set_props_PropsObject andThen_def
          simp del: props.set split: prod.splits\<close>)
    then show ?thesis by (simp add: Some PropsObject andThen_def)
  next
    case (PropsArray xs)
    have "list_all2 (\<lambda>x y. (case x of (n, item) \<Rightarrow> f (cp @ [Key (natToString n)]) item) = Inr y)
            (enumerate 0 xs) xs"
      unfolding list_all2_conv_all_nth
      using h by (auto simp: Some PropsArray propsValuesOpt_def nth_enumerate_eq)
    then show ?thesis by (simp add: Some PropsArray andThen_def mapResult_Inr[symmetric])
  qed
qed

lemma traverseItems_same:
  "(\<And>c cp'. c \<in> itemsValuesOpt i \<Longrightarrow> f cp' c = Inr c) \<Longrightarrow> traverseItems f cp i = Inr i"
proof (cases i)
  case None
  then show ?thesis by simp
next
  case (Some q)
  assume h: "\<And>c cp'. c \<in> itemsValuesOpt i \<Longrightarrow> f cp' c = Inr c"
  show ?thesis
  proof (cases q)
    case (One c)
    then show ?thesis using h by (simp add: Some itemsValuesOpt_def andThen_def)
  next
    case (More xs)
    have "list_all2 (\<lambda>x y. (case x of (n, item) \<Rightarrow> f (cp @ [Index n]) item) = Inr y)
            (enumerate 0 xs) xs"
      unfolding list_all2_conv_all_nth
      using h by (auto simp: Some More itemsValuesOpt_def nth_enumerate_eq)
    then show ?thesis by (simp add: Some More andThen_def mapResult_Inr[symmetric])
  qed
qed

lemma traverseAll_same:
  "(\<And>c cp'. c \<in> listValuesOpt l \<Longrightarrow> f cp' c = Inr c) \<Longrightarrow> traverseAll f cp l = Inr l"
  by (cases l) (auto simp: listValuesOpt_def andThen_def mapResult_same)

lemma descend_same:
  assumes "\<And>c cp'. c \<in> children n \<Longrightarrow> f cp' c = Inr c"
  shows "descend f cp n = Inr n"
proof -
  have "traverseProperties f cp (properties n) = Inr (properties n)"
    by (rule traverseProperties_same) (simp add: assms children_values)
  moreover have "traverseItems f cp (items n) = Inr (items n)"
    by (rule traverseItems_same) (simp add: assms children_values)
  moreover have "traverseAll f cp (oneOf n) = Inr (oneOf n)"
    by (rule traverseAll_same) (simp add: assms children_values)
  moreover have "traverseAll f cp (anyOf n) = Inr (anyOf n)"
    by (rule traverseAll_same) (simp add: assms children_values)
  moreover have "traverseAll f cp (allOf n) = Inr (allOf n)"
    by (rule traverseAll_same) (simp add: assms children_values)
  ultimately show ?thesis by (simp add: descend_def andThen_def)
qed

lemma traverseProperties_success:
  "(\<And>c cp'. c \<in> propsValuesOpt p \<Longrightarrow> \<exists>c'. f cp' c = Inr c') \<Longrightarrow> \<exists>p'. traverseProperties f cp p = Inr p'"
proof (cases p)
  case None
  then show ?thesis by simp
next
  case (Some q)
  assume h: "\<And>c cp'. c \<in> propsValuesOpt p \<Longrightarrow> \<exists>c'. f cp' c = Inr c'"
  show ?thesis
  proof (cases q)
    case (PropsObject ps)
    have "\<exists>ys. mapResult (\<lambda>(key, item). andThen (f (cp @ [Key key]) item) (\<lambda>item'. Inr (key, item'))) ps = Inr ys"
    proof (rule mapResult_success)
      fix x assume "x \<in> set ps"
      then have "snd x \<in> propsValuesOpt p"
        by (auto simp: Some PropsObject propsValuesOpt_def set_props_PropsObject simp del: props.set)
      from h[OF this, of "cp @ [Key (fst x)]"] obtain c' where "f (cp @ [Key (fst x)]) (snd x) = Inr c'" ..
      then show "\<exists>y. (case x of (key, item) \<Rightarrow> andThen (f (cp @ [Key key]) item) (\<lambda>item'. Inr (key, item'))) = Inr y"
        by (simp add: case_prod_beta andThen_def)
    qed
    then show ?thesis by (auto simp: Some PropsObject andThen_def)
  next
    case (PropsArray xs)
    have "\<exists>ys. mapResult (\<lambda>(n, item). f (cp @ [Key (natToString n)]) item) (enumerate 0 xs) = Inr ys"
    proof (rule mapResult_success)
      fix x assume "x \<in> set (enumerate 0 xs)"
      then have "snd x \<in> propsValuesOpt p"
        using nth_mem by (fastforce simp: Some PropsArray propsValuesOpt_def in_set_enumerate_eq)
      from h[OF this] show "\<exists>y. (case x of (n, item) \<Rightarrow> f (cp @ [Key (natToString n)]) item) = Inr y"
        by (simp add: case_prod_beta)
    qed
    then show ?thesis by (auto simp: Some PropsArray andThen_def)
  qed
qed

lemma traverseItems_success:
  "(\<And>c cp'. c \<in> itemsValuesOpt i \<Longrightarrow> \<exists>c'. f cp' c = Inr c') \<Longrightarrow> \<exists>i'. traverseItems f cp i = Inr i'"
proof (cases i)
  case None
  then show ?thesis by simp
next
  case (Some q)
  assume h: "\<And>c cp'. c \<in> itemsValuesOpt i \<Longrightarrow> \<exists>c'. f cp' c = Inr c'"
  show ?thesis
  proof (cases q)
    case (One c)
    then obtain c' where "f (cp @ [Index 0]) c = Inr c'"
      using h[of c "cp @ [Index 0]"] by (auto simp: Some itemsValuesOpt_def)
    then show ?thesis by (simp add: Some One andThen_def)
  next
    case (More xs)
    have "\<exists>ys. mapResult (\<lambda>(n, item). f (cp @ [Index n]) item) (enumerate 0 xs) = Inr ys"
    proof (rule mapResult_success)
      fix x assume "x \<in> set (enumerate 0 xs)"
      then have "snd x \<in> itemsValuesOpt i"
        using nth_mem by (fastforce simp: Some More itemsValuesOpt_def in_set_enumerate_eq)
      from h[OF this] show "\<exists>y. (case x of (n, item) \<Rightarrow> f (cp @ [Index n]) item) = Inr y"
        by (simp add: case_prod_beta)
    qed
    then show ?thesis by (auto simp: Some More andThen_def)
  qed
qed

lemma traverseAll_success:
  "(\<And>c cp'. c \<in> listValuesOpt l \<Longrightarrow> \<exists>c'. f cp' c = Inr c') \<Longrightarrow> \<exists>l'. traverseAll f cp l = Inr l'"
proof (cases l)
  case None
  then show ?thesis by simp
next
  case (Some xs)
  assume h: "\<And>c cp'. c \<in> listValuesOpt l \<Longrightarrow> \<exists>c'. f cp' c = Inr c'"
  have "\<exists>ys. mapResult (f cp) xs = Inr ys"
    by (rule mapResult_success) (use h in \<open>simp add: Some listValuesOpt_def\<close>)
  then show ?thesis by (auto simp: Some andThen_def)
qed

lemma descend_success:
  assumes "\<And>c cp'. c \<in> children n \<Longrightarrow> \<exists>c'. f cp' c = Inr c'"
  shows "\<exists>js1. descend f cp n = Inr js1"
proof -
  obtain p where "traverseProperties f cp (properties n) = Inr p"
    using traverseProperties_success[of "properties n" f cp] assms by (auto simp: children_values)
  moreover obtain i where "traverseItems f cp (items n) = Inr i"
    using traverseItems_success[of "items n" f cp] assms by (auto simp: children_values)
  moreover obtain o1 where "traverseAll f cp (oneOf n) = Inr o1"
    using traverseAll_success[of "oneOf n" f cp] assms by (auto simp: children_values)
  moreover obtain a1 where "traverseAll f cp (anyOf n) = Inr a1"
    using traverseAll_success[of "anyOf n" f cp] assms by (auto simp: children_values)
  moreover obtain l1 where "traverseAll f cp (allOf n) = Inr l1"
    using traverseAll_success[of "allOf n" f cp] assms by (auto simp: children_values)
  ultimately show ?thesis by (simp add: descend_def andThen_def)
qed

subsection \<open>A node after one pass\<close>

lemma stableTable_target:
  assumes "stableTable m" "map_of (typeMapping m) k = Some v"
  shows "normalizeType (typeMapping m) (TName v) = Inr (TName v)"
proof -
  have "(k, v) \<in> set (typeMapping m)" using assms(2) by (rule map_of_SomeD)
  then show ?thesis
    using assms(1) unfolding stableTable_def list_all_iff by (auto simp del: normalizeType.simps)
qed

lemma normalizeType_stable:
  assumes "stableTable m" "normalizeType (typeMapping m) (TName t) = Inr (TName s)"
  shows "normalizeType (typeMapping m) (TName s) = Inr (TName s)"
proof (cases "getProp (typeMapping m) (toLowerCase t)")
  case (Own v)
  show ?thesis
  proof (cases "v = []")
    case True
    then have "s = toLowerCase t" using assms(2) Own by (simp add: Let_def)
    then show ?thesis using Own True by (simp add: Let_def)
  next
    case False
    then have s: "s = v" using assms(2) Own by (simp add: Let_def)
    have "map_of (typeMapping m) (toLowerCase t) = Some v"
      using Own by (auto simp: getProp_def split: option.splits if_splits)
    then show ?thesis unfolding s by (rule stableTable_target[OF assms(1)])
  qed
next
  case (Inherited k)
  then show ?thesis using assms(2) by (simp add: Let_def)
next
  case Missing
  then have "s = toLowerCase t" using assms(2) by (simp add: Let_def)
  then show ?thesis using Missing by (simp add: Let_def)
qed

lemma normalizesToName_settles:
  assumes "stableTable m" "normalizesToName (typeMapping m) t"
  obtains s where "normalizeType (typeMapping m) t = Inr (TName s)"
    and "normalizeType (typeMapping m) (TName s) = Inr (TName s)"
    and "\<exists>t0. t = TName t0"
proof -
  from assms(2) obtain s where s: "normalizeType (typeMapping m) t = Inr (TName s)"
    by (auto split: sum.splits tyval.splits simp del: normalizeType.simps)
  then obtain t0 where t: "t = TName t0" by (cases t) auto
  from normalizeType_stable[OF assms(1) s[unfolded t]] s t that show thesis by blast
qed

lemma normalizeType_list_settles:
  assumes "stableTable m"
  shows "list_all (normalizesToName (typeMapping m)) ts \<Longrightarrow>
    \<exists>ts'. mapResult (normalizeType (typeMapping m)) ts = Inr ts'
         \<and> mapResult (normalizeType (typeMapping m)) ts' = Inr ts'"
proof (induction ts)
  case Nil
  show ?case by simp
next
  case (Cons t ts)
  from Cons.prems have "normalizesToName (typeMapping m) t" by (simp del: normalizesToName.simps)
  from normalizesToName_settles[OF assms this] obtain s
    where s: "normalizeType (typeMapping m) t = Inr (TName s)"
      "normalizeType (typeMapping m) (TName s) = Inr (TName s)" by blast
  from Cons obtain ts' where ts': "mapResult (normalizeType (typeMapping m)) ts = Inr ts'"
    "mapResult (normalizeType (typeMapping m)) ts' = Inr ts'" by (auto simp del: normalizesToName.simps)
  show ?case using s ts' by (simp add: andThen_def del: normalizeType.simps)
qed

lemma normalizeTypes_settles:
  assumes "stableTable m" "list_all (normalizesToName (typeMapping m)) (castArray ty)"
  obtains ty' where "normalizeTypes (typeMapping m) ty = Inr ty'"
    and "normalizeTypes (typeMapping m) ty' = Inr ty'"
    and "\<And>s. ty' = One (TName s) \<Longrightarrow>
           \<exists>t. ty = One (TName t) \<and> normalizeType (typeMapping m) (TName t) = Inr (TName s)"
proof (cases ty)
  case (One t)
  then have "normalizesToName (typeMapping m) t" using assms(2) by (simp del: normalizesToName.simps)
  from normalizesToName_settles[OF assms(1) this] obtain s t0
    where s: "normalizeType (typeMapping m) t = Inr (TName s)"
      "normalizeType (typeMapping m) (TName s) = Inr (TName s)" "t = TName t0" by blast
  show thesis
  proof (rule that[of "One (TName s)"])
    show "normalizeTypes (typeMapping m) ty = Inr (One (TName s))"
      using s(1) by (simp add: One andThen_def del: normalizeType.simps)
    show "normalizeTypes (typeMapping m) (One (TName s)) = Inr (One (TName s))"
      using s(2) by (simp add: andThen_def del: normalizeType.simps)
    show "\<And>s'. One (TName s) = One (TName s') \<Longrightarrow>
           \<exists>t. ty = One (TName t) \<and> normalizeType (typeMapping m) (TName t) = Inr (TName s')"
      using s(1,3) One by (auto simp del: normalizeType.simps)
  qed
next
  case (More ts)
  then have "list_all (normalizesToName (typeMapping m)) ts" using assms(2) by (simp del: normalizesToName.simps)
  from normalizeType_list_settles[OF assms(1) this] obtain ts'
    where ts': "mapResult (normalizeType (typeMapping m)) ts = Inr ts'"
      "mapResult (normalizeType (typeMapping m)) ts' = Inr ts'" by blast
  show thesis
  proof (rule that[of "More ts'"])
    show "normalizeTypes (typeMapping m) ty = Inr (More ts')"
      using ts'(1) by (simp add: More andThen_def)
    show "normalizeTypes (typeMapping m) (More ts') = Inr (More ts')"
      using ts'(2) by (simp add: andThen_def)
    show "\<And>s. More ts' = One (TName s) \<Longrightarrow>
           \<exists>t. ty = One (TName t) \<and> normalizeType (typeMapping m) (TName t) = Inr (TName s)"
      by simp
  qed
qed

lemma trimRequired_idem: "trimRequired (trimRequired r) = trimRequired r"
  by (cases r rule: trimRequired.cases) simp_all

lemma delete_refs_idem:
  "AList.delete ''$$ref'' (AList.delete ''$ref'' (AList.delete ''$$ref'' (AList.delete ''$ref'' e)))
     = AList.delete ''$$ref'' (AList.delete ''$ref'' e)"
  by (simp add: AList.delete_twist[of "''$ref''" "''$$ref''"] AList.delete_idem)

lemma tupleCase_iff:
  "(case (t, i) of (Some (One (TName t0)), Some (More (x # xs))) \<Rightarrow> P t0 | _ \<Rightarrow> True)
     = (\<forall>t0 x xs. t = Some (One (TName t0)) \<and> i = Some (More (x # xs)) \<longrightarrow> P t0)"
  by (auto split: option.splits OneOrMore.splits tyval.splits list.splits)

lemma tupleCase_keep:
  "\<not> (\<exists>x xs. t = Some (One (TName ''array'')) \<and> i = Some (More (x # xs))) \<Longrightarrow>
   (case (t, i) of
      (Some (One (TName t0)), Some (More (x # xs))) \<Rightarrow> if t0 = ''array'' then Some (One x) else i
    | _ \<Rightarrow> i) = i"
  by (auto split: option.splits OneOrMore.splits tyval.splits list.splits)

lemma settledNode_fixed:
  assumes "settledNode m js"
  shows "processNode m js = Inr js" and "repairProperties js = js"
proof -
  obtain t p i r o1 a1 l1 e where js: "js = Schema t p i r o1 a1 l1 e" by (cases js)
  have e: "AList.delete ''$$ref'' (AList.delete ''$ref'' e) = e"
    using assms by (simp add: settledNode_def js)
  have i: "(case (t, i) of
                 (Some (One (TName t)), Some (More (x # xs))) \<Rightarrow>
                   if t = ''array'' then Some (One x) else i
               | _ \<Rightarrow> i) = i"
  proof (rule tupleCase_keep)
    have "\<forall>t0 x xs. t = Some (One (TName t0)) \<and> i = Some (More (x # xs)) \<longrightarrow> t0 \<noteq> ''array''"
      using assms unfolding settledNode_def js schema.sel tupleCase_iff by blast
    then show "\<not> (\<exists>x xs. t = Some (One (TName ''array'')) \<and> i = Some (More (x # xs)))" by blast
  qed
  have t: "(if typeIsTruthy t
                  then andThen (normalizeTypes (typeMapping m) (the t)) (\<lambda>t. Inr (Some t))
                  else Inr t) = Inr t"
  proof (cases "typeIsTruthy t")
    case True
    then obtain ty where ty: "t = Some ty" by (cases t) auto
    have "normalizeTypes (typeMapping m) ty = Inr ty"
      using assms True by (simp add: settledNode_def js ty del: normalizeTypes.simps typeIsTruthy.simps)
    then show ?thesis using True by (simp add: ty andThen_def del: normalizeTypes.simps typeIsTruthy.simps)
  next
    case False
    then show ?thesis by simp
  qed
  have p: "(case p of
                       Some (PropsObject ps) \<Rightarrow>
                         Schema t (Some (PropsObject (trimKeys ps))) i (trimRequired r) o1 a1 l1 e
                     | Some (PropsArray xs) \<Rightarrow>
                         Schema t (Some (PropsArray xs)) i (trimRequired r) o1 a1 l1 e
                     | None \<Rightarrow> Schema t None i r o1 a1 l1 e) = Schema t p i r o1 a1 l1 e"
  proof (cases p)
    case None
    then show ?thesis by (simp add: js)
  next
    case (Some q)
    show ?thesis
    proof (cases q)
      case (PropsObject qs)
      have "distinct (map fst qs)" "\<forall>k\<in>fst ` set qs. trimmedKey k" "trimRequired r = r"
        using assms by (auto simp: settledNode_def js Some PropsObject list_all_iff)
      then show ?thesis using trimKeys_settled[of qs] by (simp add: js Some PropsObject)
    next
      case (PropsArray xs)
      then show ?thesis using assms by (simp add: settledNode_def js Some)
    qed
  qed
  show "processNode m js = Inr js"
    unfolding processNode_def Let_def js schema.sel e i t
    by (simp only: andThen_def sum.case p)
  show "repairProperties js = js"
    using assms by (auto simp: settledNode_def repairProperties_def js split: option.splits props.splits)
qed

lemma processNode_settled:
  assumes st: "stableTable m" and sp: "spelledNode m n0" and na: "\<not> isArrayForm (properties n0)"
  shows "\<exists>n. processNode m n0 = Inr n \<and> settledNode m n"
proof -
  obtain t p i r o1 a1 l1 e where n0: "n0 = Schema t p i r o1 a1 l1 e" by (cases n0)
  let ?e = "AList.delete ''$$ref'' (AList.delete ''$ref'' e)"
  let ?i = "case (t, i) of
                 (Some (One (TName t)), Some (More (x # xs))) \<Rightarrow>
                   if t = ''array'' then Some (One x) else i
               | _ \<Rightarrow> i"
  have types: "list_all (normalizesToName (typeMapping m)) (typesOf n0)"
    using sp by (simp add: spelledNode_def del: normalizesToName.simps)
  have tuple: "\<forall>t0 x xs. t = Some (One (TName t0)) \<and> i = Some (More (x # xs)) \<longrightarrow>
      t0 = ''array'' \<or> normalizeType (typeMapping m) (TName t0) \<noteq> Inr (TName ''array'')"
    using sp unfolding spelledNode_def n0 schema.sel tupleCase_iff by blast
  obtain t' where T: "(if typeIsTruthy t
                  then andThen (normalizeTypes (typeMapping m) (the t)) (\<lambda>t. Inr (Some t))
                  else Inr t) = Inr t'"
    and T2: "typeIsTruthy t' \<Longrightarrow> normalizeTypes (typeMapping m) (the t') = Inr (the t')"
    and T3: "\<And>s. t' = Some (One (TName s)) \<Longrightarrow>
               \<exists>t0. t = Some (One (TName t0)) \<and> (t0 = s \<or> normalizeType (typeMapping m) (TName t0) = Inr (TName s))"
  proof (cases "typeIsTruthy t")
    case False
    show thesis
    proof (rule that[of t])
      show "(if typeIsTruthy t
                  then andThen (normalizeTypes (typeMapping m) (the t)) (\<lambda>t. Inr (Some t))
                  else Inr t) = Inr t" using False by simp
      show "typeIsTruthy t \<Longrightarrow> normalizeTypes (typeMapping m) (the t) = Inr (the t)" using False by simp
      show "\<And>s. t = Some (One (TName s)) \<Longrightarrow>
               \<exists>t0. t = Some (One (TName t0)) \<and> (t0 = s \<or> normalizeType (typeMapping m) (TName t0) = Inr (TName s))"
        by blast
    qed
  next
    case True
    then obtain ty where ty: "t = Some ty" by (cases t) auto
    have "list_all (normalizesToName (typeMapping m)) (castArray ty)"
      using types by (simp add: typesOf_def n0 ty del: normalizesToName.simps)
    from normalizeTypes_settles[OF st this] obtain ty'
      where ty': "normalizeTypes (typeMapping m) ty = Inr ty'"
        "normalizeTypes (typeMapping m) ty' = Inr ty'"
        "\<And>s. ty' = One (TName s) \<Longrightarrow>
           \<exists>t. ty = One (TName t) \<and> normalizeType (typeMapping m) (TName t) = Inr (TName s)"
      by blast
    show thesis
    proof (rule that[of "Some ty'"])
      show "(if typeIsTruthy t
                  then andThen (normalizeTypes (typeMapping m) (the t)) (\<lambda>t. Inr (Some t))
                  else Inr t) = Inr (Some ty')"
        using True ty'(1) by (simp add: ty andThen_def del: normalizeTypes.simps typeIsTruthy.simps)
      show "typeIsTruthy (Some ty') \<Longrightarrow> normalizeTypes (typeMapping m) (the (Some ty')) = Inr (the (Some ty'))"
        using ty'(2) by simp
      show "\<And>s. Some ty' = Some (One (TName s)) \<Longrightarrow>
               \<exists>t0. t = Some (One (TName t0)) \<and> (t0 = s \<or> normalizeType (typeMapping m) (TName t0) = Inr (TName s))"
        using ty'(3) ty by blast
    qed
  qed
  have i_tuple: "\<And>x xs. ?i = Some (More (x # xs)) \<Longrightarrow>
      i = Some (More (x # xs)) \<and> t \<noteq> Some (One (TName ''array''))"
    by (auto split: option.splits OneOrMore.splits tyval.splits list.splits if_splits)
  have noTuple: "\<forall>t0 x xs. t' = Some (One (TName t0)) \<and> ?i = Some (More (x # xs)) \<longrightarrow> t0 \<noteq> ''array''"
  proof (intro allI impI notI)
    fix t0 x xs
    assume a: "t' = Some (One (TName t0)) \<and> ?i = Some (More (x # xs))" and arr: "t0 = ''array''"
    from i_tuple[of x xs] a have i: "i = Some (More (x # xs))" and t: "t \<noteq> Some (One (TName ''array''))"
      by blast+
    from T3[of t0] a obtain u where u: "t = Some (One (TName u))"
      "u = t0 \<or> normalizeType (typeMapping m) (TName u) = Inr (TName t0)" by blast
    from tuple u(1) i have "u = ''array'' \<or> normalizeType (typeMapping m) (TName u) \<noteq> Inr (TName ''array'')"
      by blast
    then show False using u t arr by blast
  qed
  define n where "n = (case p of
                       Some (PropsObject ps) \<Rightarrow>
                         Schema t' (Some (PropsObject (trimKeys ps))) ?i (trimRequired r) o1 a1 l1 ?e
                     | Some (PropsArray xs) \<Rightarrow>
                         Schema t' (Some (PropsArray xs)) ?i (trimRequired r) o1 a1 l1 ?e
                     | None \<Rightarrow> Schema t' None ?i r o1 a1 l1 ?e)"
  have run: "processNode m n0 = Inr n"
    unfolding processNode_def Let_def n0 schema.sel T n_def
    by (simp only: andThen_def sum.case)
  have sel: "stype n = t'" "items n = ?i" "extras n = ?e"
    by (simp_all add: n_def split: option.splits props.splits)
  have props: "(case properties n of
            None \<Rightarrow> True
          | Some (PropsArray xs) \<Rightarrow> False
          | Some (PropsObject qs) \<Rightarrow>
              distinct (map fst qs) \<and> list_all trimmedKey (map fst qs)
              \<and> trimRequired (required n) = required n)"
  proof (cases p)
    case None
    then show ?thesis by (simp add: n_def)
  next
    case (Some q)
    show ?thesis
    proof (cases q)
      case (PropsObject ps)
      show ?thesis
        using trimKeys_keys[of ps]
        by (simp add: n_def Some PropsObject trimRequired_idem list_all_iff)
    next
      case (PropsArray xs)
      then show ?thesis using na by (simp add: n0 Some)
    qed
  qed
  have "settledNode m n"
    unfolding settledNode_def sel tupleCase_iff
    using T2 props noTuple delete_refs_idem[of e] by (simp only: if_True if_False simp_thms split: if_splits) blast
  with run show ?thesis by blast
qed

lemma settledNode_descend:
  assumes "settledNode m n" "descend f cp n = Inr js1"
  shows "settledNode m js1"
proof -
  from assms(2) obtain p i o1 a1 l1 where t:
    "traverseProperties f cp (properties n) = Inr p"
    "traverseItems f cp (items n) = Inr i"
    and js1: "js1 = Schema (stype n) p i (required n) o1 a1 l1 (extras n)"
    by (rule descend_Inr)
  have props: "(case p of
            None \<Rightarrow> True
          | Some (PropsArray xs) \<Rightarrow> False
          | Some (PropsObject qs) \<Rightarrow>
              distinct (map fst qs) \<and> list_all trimmedKey (map fst qs)
              \<and> trimRequired (required n) = required n)"
  proof (cases p)
    case None
    then show ?thesis by simp
  next
    case (Some q)
    show ?thesis
    proof (cases q)
      case (PropsObject qs)
      from traverseProperties_Inr(3)[OF t(1), of qs] obtain ps
        where ps: "properties n = Some (PropsObject ps)" "map fst qs = map fst ps"
        unfolding Some PropsObject by blast
      then show ?thesis using assms(1) by (simp add: settledNode_def Some PropsObject)
    next
      case (PropsArray xs)
      then have "isArrayForm (properties n)"
        using traverseProperties_Inr(2)[OF t(1)] Some by simp
      then obtain ys where "properties n = Some (PropsArray ys)"
        by (cases "properties n" rule: isArrayForm.cases) auto
      then show ?thesis using assms(1) by (simp add: settledNode_def)
    qed
  qed
  have noTuple: "\<forall>t0 x xs. stype n = Some (One (TName t0)) \<and> i = Some (More (x # xs)) \<longrightarrow> t0 \<noteq> ''array''"
  proof (intro allI impI)
    fix t0 x xs
    assume a: "stype n = Some (One (TName t0)) \<and> i = Some (More (x # xs))"
    then obtain y ys where "items n = Some (More (y # ys))"
      using traverseItems_Inr(1)[OF t(2), of x xs] by blast
    moreover have "\<forall>t0 x xs. stype n = Some (One (TName t0)) \<and> items n = Some (More (x # xs)) \<longrightarrow> t0 \<noteq> ''array''"
      using assms(1) unfolding settledNode_def tupleCase_iff by blast
    ultimately show "t0 \<noteq> ''array''" using a by blast
  qed
  have rest: "(if typeIsTruthy (stype n)
       then normalizeTypes (typeMapping m) (the (stype n)) = Inr (the (stype n))
       else True)" "AList.delete ''$$ref'' (AList.delete ''$ref'' (extras n)) = extras n"
    using assms(1) unfolding settledNode_def by blast+
  show ?thesis
    unfolding settledNode_def js1 schema.sel tupleCase_iff
    using props noTuple rest by blast
qed

lemma repairProperties_notArray: "\<not> isArrayForm (properties (repairProperties js))"
  by (cases "properties js" rule: isArrayForm.cases)
    (auto simp: repairProperties_def withProperties_def)

lemma repairProperties_spelled: "spelledNode m (repairProperties js) = spelledNode m js"
proof -
  have "stype (repairProperties js) = stype js" "items (repairProperties js) = items js"
    by (auto simp: repairProperties_def withProperties_def split: option.splits props.splits)
  then show ?thesis by (simp add: spelledNode_def typesOf_def del: normalizesToName.simps)
qed

lemma spelledTree_node: "spelledTree m js \<Longrightarrow> spelledNode m js"
  by (simp add: spelledTree_def nodes.simps[of js])

lemma spelledTree_child: "spelledTree m js \<Longrightarrow> c \<in> children js \<Longrightarrow> spelledTree m c"
  by (auto simp: spelledTree_def nodes.simps[of js] children_def list_all_iff)

lemma processJsonSchema_settles:
  assumes st: "stableTable m"
  shows "spelledTree m js \<Longrightarrow>
    \<exists>js1. processJsonSchema m js = Inr js1 \<and> processJsonSchema m js1 = Inr js1"
proof (induction js rule: measure_induct_rule[where f = size])
  case (less js)
  have "spelledNode m (repairProperties js)"
    using spelledTree_node[OF less.prems] by (simp only: repairProperties_spelled)
  from processNode_settled[OF st this repairProperties_notArray]
  obtain n where n: "processNode m (repairProperties js) = Inr n" "settledNode m n" by blast
  have sub: "children n \<subseteq> children js"
    using children_processNode[OF n(1)] children_repairProperties[of js] by blast
  have IH: "\<exists>c1. processJsonSchema m c = Inr c1 \<and> processJsonSchema m c1 = Inr c1"
    if "c \<in> children n" for c
  proof -
    from that sub have c: "c \<in> children js" by blast
    show ?thesis
      by (rule less.IH[OF children_size[OF c] spelledTree_child[OF less.prems c]])
  qed
  have "\<exists>js1. descend (\<lambda>currentPath item. processJsonSchema m item) [] n = Inr js1"
    by (rule descend_success) (use IH in blast)
  then obtain js1 where js1: "descend (\<lambda>currentPath item. processJsonSchema m item) [] n = Inr js1" ..
  have first: "processJsonSchema m js = Inr js1"
    by (simp add: processJsonSchema.simps[of m js] n(1) andThen_def js1)
  have s1: "settledNode m js1" by (rule settledNode_descend[OF n(2) js1])
  have kids: "processJsonSchema m c = Inr c" if "c \<in> children js1" for c
  proof -
    from descend_children[OF js1 that] obtain c0 where c0: "c0 \<in> children n"
      "processJsonSchema m c0 = Inr c" by blast
    from IH[OF c0(1)] c0(2) show ?thesis by simp
  qed
  have "descend (\<lambda>currentPath item. processJsonSchema m item) [] js1 = Inr js1"
    by (rule descend_same) (rule kids)
  then have second: "processJsonSchema m js1 = Inr js1"
    by (simp add: processJsonSchema.simps[of m js1] settledNode_fixed[OF s1] andThen_def)
  from first second show ?case by blast
qed

text \<open>
  Claim C3, as stated: for every tree and every custom mapping a second
  \<open>processJsonSchema\<close> returns the result of the first. The table is looked up once per
  pass, so a custom mapping that sends a target of the table further breaks this: with
  \<open>{number: "string"}\<close> the node \<open>{type: "float"}\<close> becomes \<open>{type: "number"}\<close>, and a second
  pass turns that into \<open>{type: "string"}\<close>.
\<close>

theorem processJsonSchema_second_pass_differs:
  "processJsonSchema [(''number'', TypeString)] (typeNode ''float'') = Inr (typeNode ''number'')
   \<and> processJsonSchema [(''number'', TypeString)] (typeNode ''number'') = Inr (typeNode ''string'')
   \<and> typeNode ''number'' \<noteq> typeNode ''string''"
proof -
  have "processJsonSchema [(''number'', TypeString)] (typeNode ''float'') = Inr (typeNode ''number'')"
    by code_simp
  moreover have "processJsonSchema [(''number'', TypeString)] (typeNode ''number'') = Inr (typeNode ''string'')"
    by code_simp
  moreover have "typeNode ''number'' \<noteq> typeNode ''string''"
    by (simp add: typeNode_def)
  ultimately show ?thesis by blast
qed

text \<open>
  Claim C3, amended: \<open>processJsonSchema\<close> is idempotent whenever the table maps each of its
  targets to itself and, in the tree, every type name normalizes to a string and every
  node with a non-empty tuple as \<open>items\<close> whose type normalizes to \<open>array\<close> has the type
  \<open>array\<close> as written. Then the first pass returns a tree and the second pass, run on that
  tree with the same mapping, returns the same tree.
\<close>

theorem processJsonSchema_idempotent:
  assumes "stableTable m" and "spelledTree m js"
  shows "\<exists>js1. processJsonSchema m js = Inr js1 \<and> processJsonSchema m js1 = Inr js1"
  using assms by (rule processJsonSchema_settles)

theorem processJsonSchema_idempotent_witness:
  "stableTable [(''Date'', TypeString)]
   \<and> spelledTree [(''Date'', TypeString)]
        (Schema (Some (One (TName ''Object'')))
           (Some (PropsObject
              [('' id '', typeNode ''Long''),
               (''tags'', Schema (Some (One (TName ''array''))) None
                            (Some (More [typeNode ''String'', typeNode ''int''])) None None None None []),
               (''at'', typeNode ''DATE'')]))
           None (Some (RequiredNames ['' id ''])) None None None [(''$ref'', JStr ''#/definitions/x'')])
   \<and> (\<exists>js1. processJsonSchema [(''Date'', TypeString)]
        (Schema (Some (One (TName ''Object'')))
           (Some (PropsObject
              [('' id '', typeNode ''Long''),
               (''tags'', Schema (Some (One (TName ''array''))) None
                            (Some (More [typeNode ''String'', typeNode ''int''])) None None None None []),
               (''at'', typeNode ''DATE'')]))
           None (Some (RequiredNames ['' id ''])) None None None [(''$ref'', JStr ''#/definitions/x'')]) = Inr js1
          \<and> processJsonSchema [(''Date'', TypeString)] js1 = Inr js1)"
proof -
  let ?m = "[(''Date'', TypeString)]"
  let ?js = "Schema (Some (One (TName ''Object'')))
           (Some (PropsObject
              [('' id '', typeNode ''Long''),
               (''tags'', Schema (Some (One (TName ''array''))) None
                            (Some (More [typeNode ''String'', typeNode ''int''])) None None None None []),
               (''at'', typeNode ''DATE'')]))
           None (Some (RequiredNames ['' id ''])) None None None [(''$ref'', JStr ''#/definitions/x'')]"
  have table: "stableTable ?m" by code_simp
  have tree: "spelledTree ?m ?js" by code_simp
  from processJsonSchema_idempotent[OF table tree] table tree show ?thesis by blast
qed

section \<open>The type table at every node\<close>

lemma builtinTypeMapping_nonempty: "map_of builtinTypeMapping l = Some b \<Longrightarrow> b \<noteq> []"
  by (auto simp: builtinTypeMapping_def split: if_splits)

lemma builtinTypeMapping_not_inherited:
  "map_of builtinTypeMapping l = None \<or> l \<notin> set objectPrototypeMembers"
  by (auto simp: builtinTypeMapping_def objectPrototypeMembers_def)

lemma normalizeType_plain:
  assumes "plainType m t"
  shows "normalizeType (typeMapping m) t = Inr (specType m t)"
proof (cases t)
  case (TMember k)
  then show ?thesis using assms by simp
next
  case (TName s)
  show ?thesis
  proof (cases "customTargetFor m s")
    case (Some v)
    then show ?thesis unfolding TName specType.simps specTypeName_def
      by (simp add: normalizeType_custom del: normalizeType.simps)
  next
    case None
    show ?thesis
    proof (cases "map_of builtinTypeMapping (toLowerCase s)")
      case (Some b)
      from normalizeType_builtin[OF None Some builtinTypeMapping_nonempty[OF Some]]
      show ?thesis unfolding TName specType.simps specTypeName_def by (simp add: None Some del: normalizeType.simps)
    next
      case none: None
      have "toLowerCase s \<notin> set objectPrototypeMembers" using assms None TName by simp
      from normalizeType_other[OF None none this]
      show ?thesis unfolding TName specType.simps specTypeName_def by (simp add: None none del: normalizeType.simps)
    qed
  qed
qed

lemma normalizeType_list_plain:
  "list_all (plainType m) ts \<Longrightarrow> mapResult (normalizeType (typeMapping m)) ts = Inr (map (specType m) ts)"
  by (induction ts) (simp_all add: normalizeType_plain andThen_def del: normalizeType.simps plainType.simps)

lemma processNode_plain:
  assumes "list_all (plainType m) (typesOf js)"
  shows "\<exists>n. processNode m js = Inr n \<and> stype n = expectedType m (stype js)"
proof -
  have t: "(if typeIsTruthy (stype js)
                  then andThen (normalizeTypes (typeMapping m) (the (stype js))) (\<lambda>t. Inr (Some t))
                  else Inr (stype js)) = Inr (expectedType m (stype js))"
  proof (cases "stype js")
    case None
    then show ?thesis by (simp add: expectedType_def)
  next
    case (Some ty)
    show ?thesis
    proof (cases ty)
      case (One x)
      then have p: "plainType m x" using assms Some by (simp add: typesOf_def del: plainType.simps)
      then obtain s where x: "x = TName s" "s \<noteq> []" by (cases x) auto
      show ?thesis
        using normalizeType_plain[OF p] x
        by (simp add: Some One expectedType_def andThen_def del: normalizeType.simps specType.simps)
    next
      case (More ts)
      then have "list_all (plainType m) ts" using assms Some by (simp add: typesOf_def del: plainType.simps)
      from normalizeType_list_plain[OF this] show ?thesis
        by (simp add: Some More expectedType_def andThen_def)
    qed
  qed
  show ?thesis
    unfolding processNode_def Let_def t
    by (simp add: andThen_def split: option.splits props.splits)
qed

lemma plainTypes_node: "plainTypes m js \<Longrightarrow> list_all (plainType m) (typesOf js)"
  by (simp add: plainTypes_def nodes.simps[of js] del: plainType.simps)

lemma plainTypes_child: "plainTypes m js \<Longrightarrow> c \<in> children js \<Longrightarrow> plainTypes m c"
  by (auto simp: plainTypes_def nodes.simps[of js] children_def list_all_iff simp del: plainType.simps)

lemma typesOf_repairProperties [simp]: "typesOf (repairProperties js) = typesOf js"
  by (simp add: typesOf_def)

lemma nodes_self: "js \<in> set (nodes js)"
  by (simp add: nodes.simps[of js])

lemma nodes_child: "c \<in> children js \<Longrightarrow> n \<in> set (nodes c) \<Longrightarrow> n \<in> set (nodes js)"
  by (auto simp: nodes.simps[of js] children_def)

lemma nodes_cases: "n \<in> set (nodes js) \<Longrightarrow> n = js \<or> (\<exists>c \<in> children js. n \<in> set (nodes c))"
  by (auto simp: nodes.simps[of js] children_def)

lemma processJsonSchema_plain:
  "plainTypes m js \<Longrightarrow>
   \<exists>js1. processJsonSchema m js = Inr js1
     \<and> stype js1 = expectedType m (stype js)
     \<and> (\<forall>n' \<in> set (nodes js1). \<exists>n \<in> set (nodes js).
           processJsonSchema m n = Inr n' \<and> stype n' = expectedType m (stype n))"
proof (induction js rule: measure_induct_rule[where f = size])
  case (less js)
  have "list_all (plainType m) (typesOf (repairProperties js))"
    using plainTypes_node[OF less.prems] by (simp del: plainType.simps)
  from processNode_plain[OF this]
  obtain n where n: "processNode m (repairProperties js) = Inr n" "stype n = expectedType m (stype js)"
    by auto
  have sub: "children n \<subseteq> children js"
    using children_processNode[OF n(1)] children_repairProperties[of js] by blast
  have IH: "\<exists>c1. processJsonSchema m c = Inr c1
     \<and> stype c1 = expectedType m (stype c)
     \<and> (\<forall>n' \<in> set (nodes c1). \<exists>n \<in> set (nodes c).
           processJsonSchema m n = Inr n' \<and> stype n' = expectedType m (stype n))"
    if "c \<in> children js" for c
    by (rule less.IH[OF children_size[OF that] plainTypes_child[OF less.prems that]])
  have "\<exists>js1. descend (\<lambda>currentPath item. processJsonSchema m item) [] n = Inr js1"
    by (rule descend_success) (use IH sub in blast)
  then obtain js1 where js1: "descend (\<lambda>currentPath item. processJsonSchema m item) [] n = Inr js1" ..
  have first: "processJsonSchema m js = Inr js1"
    by (simp add: processJsonSchema.simps[of m js] n(1) andThen_def js1)
  have root: "stype js1 = expectedType m (stype js)"
    using stype_descend[OF js1] n(2) by simp
  have all: "\<exists>n \<in> set (nodes js). processJsonSchema m n = Inr n' \<and> stype n' = expectedType m (stype n)"
    if "n' \<in> set (nodes js1)" for n'
  proof -
    from nodes_cases[OF that] show ?thesis
    proof
      assume "n' = js1"
      then show ?thesis using first root nodes_self[of js] by blast
    next
      assume "\<exists>c \<in> children js1. n' \<in> set (nodes c)"
      then obtain c' where c': "c' \<in> children js1" "n' \<in> set (nodes c')" by blast
      from descend_children[OF js1 c'(1)] obtain c where c: "c \<in> children n"
        "processJsonSchema m c = Inr c'" by blast
      then have cj: "c \<in> children js" using sub by blast
      from IH[OF cj] c(2) have "\<forall>n' \<in> set (nodes c'). \<exists>n \<in> set (nodes c).
           processJsonSchema m n = Inr n' \<and> stype n' = expectedType m (stype n)" by auto
      with c'(2) obtain n0 where "n0 \<in> set (nodes c)"
        "processJsonSchema m n0 = Inr n' \<and> stype n' = expectedType m (stype n0)" by blast
      then show ?thesis using nodes_child[OF cj] by blast
    qed
  qed
  from first root all show ?case by blast
qed

text \<open>
  Claim C4. For every node with a type field the type is to be lowercased and mapped
  through the table. The lookup \<open>typeMapping[type] || type\<close> is written to fall back to
  the lowercased name, and for the name \<open>Constructor\<close> it does not: the read finds the
  member \<open>constructor\<close> that the table object inherits, and the type of the node becomes
  that function instead of the string \<open>constructor\<close>.
\<close>

theorem type_table_inherited_member:
  "processJsonSchema [] (typeNode ''Constructor'')
     = Inr (Schema (Some (One (TMember ''constructor''))) None None None None None None [])
   \<and> expectedType [] (stype (typeNode ''Constructor'')) = Some (One (TName ''constructor''))"
proof -
  have "processJsonSchema [] (typeNode ''Constructor'')
     = Inr (Schema (Some (One (TMember ''constructor''))) None None None None None None [])"
    by code_simp
  moreover have "expectedType [] (stype (typeNode ''Constructor'')) = Some (One (TName ''constructor''))"
    by code_simp
  ultimately show ?thesis by blast
qed

text \<open>
  Apart from such names the normalizer does what the sentence says. When all type names
  of the tree are plain, \<open>processJsonSchema\<close> returns a tree; the type of its root, and of
  every node in it, is the type of the node it was made from, mapped as the specification
  says, for a single name and for an array of names; \<open>{type: "Int"}\<close> becomes
  \<open>{type: "integer"}\<close>, and the caller's entry for \<open>int\<close>, under any spelling of the key,
  comes first.
\<close>

theorem type_table_normalization:
  "(plainTypes m js \<longrightarrow>
      (\<exists>js1. processJsonSchema m js = Inr js1
         \<and> stype js1 = expectedType m (stype js)
         \<and> (\<forall>n' \<in> set (nodes js1). \<exists>n \<in> set (nodes js).
               processJsonSchema m n = Inr n' \<and> stype n' = expectedType m (stype n))))
   \<and> (customTargetFor m t = None \<longrightarrow>
        (toLowerCase t \<in> {''byte'', ''short'', ''int'', ''long''} \<longrightarrow> specTypeName m t = ''integer'')
        \<and> (toLowerCase t \<in> {''float'', ''double'', ''bigdecimal''} \<longrightarrow> specTypeName m t = ''number'')
        \<and> (toLowerCase t = ''char'' \<longrightarrow> specTypeName m t = ''string'')
        \<and> (toLowerCase t = ''void'' \<longrightarrow> specTypeName m t = ''null''))
   \<and> (\<forall>v. customTargetFor m t = Some v \<longrightarrow> specTypeName m t = typeNameText v)
   \<and> processJsonSchema [] (typeNode ''Int'') = Inr (typeNode ''integer'')
   \<and> processJsonSchema [(''int'', TypeString)] (typeNode ''Int'') = Inr (typeNode ''string'')
   \<and> processJsonSchema [(''INT'', TypeNumber)] (typeNode ''int'') = Inr (typeNode ''number'')"
proof (intro conjI)
  show "plainTypes m js \<longrightarrow>
      (\<exists>js1. processJsonSchema m js = Inr js1
         \<and> stype js1 = expectedType m (stype js)
         \<and> (\<forall>n' \<in> set (nodes js1). \<exists>n \<in> set (nodes js).
               processJsonSchema m n = Inr n' \<and> stype n' = expectedType m (stype n)))"
    using processJsonSchema_plain by blast
  show "customTargetFor m t = None \<longrightarrow>
        (toLowerCase t \<in> {''byte'', ''short'', ''int'', ''long''} \<longrightarrow> specTypeName m t = ''integer'')
        \<and> (toLowerCase t \<in> {''float'', ''double'', ''bigdecimal''} \<longrightarrow> specTypeName m t = ''number'')
        \<and> (toLowerCase t = ''char'' \<longrightarrow> specTypeName m t = ''string'')
        \<and> (toLowerCase t = ''void'' \<longrightarrow> specTypeName m t = ''null'')"
    by (auto simp: specTypeName_def builtinTypeMapping_def)
  show "\<forall>v. customTargetFor m t = Some v \<longrightarrow> specTypeName m t = typeNameText v"
    by (simp add: specTypeName_def)
  show "processJsonSchema [] (typeNode ''Int'') = Inr (typeNode ''integer'')" by code_simp
  show "processJsonSchema [(''int'', TypeString)] (typeNode ''Int'') = Inr (typeNode ''string'')" by code_simp
  show "processJsonSchema [(''INT'', TypeNumber)] (typeNode ''int'') = Inr (typeNode ''number'')" by code_simp
qed

theorem type_table_normalization_example:
  "plainTypes [(''Short'', TypeString), (''SHORT'', TypeNumber)]
     (Schema (Some (One (TName ''Object'')))
        (Some (PropsObject
           [(''n'', typeNode ''short''),
            (''xs'', Schema (Some (More [TName ''BigDecimal'', TName ''Void''])) None
                       (Some (One (typeNode ''Date''))) None None None None [])]))
        None None None None None [])
   \<and> processJsonSchema [(''Short'', TypeString), (''SHORT'', TypeNumber)]
     (Schema (Some (One (TName ''Object'')))
        (Some (PropsObject
           [(''n'', typeNode ''short''),
            (''xs'', Schema (Some (More [TName ''BigDecimal'', TName ''Void''])) None
                       (Some (One (typeNode ''Date''))) None None None None [])]))
        None None None None None [])
     = Inr (Schema (Some (One (TName ''object'')))
        (Some (PropsObject
           [(''n'', typeNode ''number''),
            (''xs'', Schema (Some (More [TName ''number'', TName ''null''])) None
                       (Some (One (typeNode ''date''))) None None None None [])]))
        None None None None None [])"
proof -
  let ?m = "[(''Short'', TypeString), (''SHORT'', TypeNumber)]"
  let ?js = "Schema (Some (One (TName ''Object'')))
        (Some (PropsObject
           [(''n'', typeNode ''short''),
            (''xs'', Schema (Some (More [TName ''BigDecimal'', TName ''Void''])) None
                       (Some (One (typeNode ''Date''))) None None None None [])]))
        None None None None None []"
  have h: "plainTypes ?m ?js" by code_simp
  have r: "processJsonSchema ?m ?js
     = Inr (Schema (Some (One (TName ''object'')))
        (Some (PropsObject
           [(''n'', typeNode ''number''),
            (''xs'', Schema (Some (More [TName ''number'', TName ''null''])) None
                       (Some (One (typeNode ''date''))) None None None None [])]))
        None None None None None [])" by code_simp
  from type_table_normalization[of ?m ?js, THEN conjunct1, rule_format, OF h] h r show ?thesis by blast
qed

end
